theory Spec2Isabelle
  imports Complex_Main "HOL-Library.Multiset" "HOL-Library.Monad_Syntax"
begin

unbundle bit_operations_syntax

section \<open>C strings and the C library\<close>

text \<open>
  A \<^verbatim>\<open>const char *\<close> is modelled by the list of bytes it points to; the terminator is
  not stored, so reading at the end of the list yields the NUL byte. Moving a cursor
  forward (\<^verbatim>\<open>SKIP_CHAR\<close>, \<^verbatim>\<open>string += n\<close>) drops bytes from the front. Every test the source
  makes against \<^verbatim>\<open>'\0'\<close> is written with \<open>peek\<close> or \<open>char_at\<close>, so a NUL byte inside a list ends
  the string exactly where the C code would stop.
\<close>

definition NUL :: char where
  "NUL = CHR 0x00"

definition dquote :: char where
  "dquote = CHR 0x22"

definition backslash :: char where
  "backslash = CHR 0x5C"

fun peek :: "string \<Rightarrow> char" where
  "peek [] = NUL"
| "peek (c # s) = c"

definition char_at :: "string \<Rightarrow> nat \<Rightarrow> char" where
  "char_at s i = (if i < length s then s ! i else NUL)"

definition cstr :: "string \<Rightarrow> string" where
  "cstr s = takeWhile (\<lambda>c. c \<noteq> NUL) s"

definition strlen :: "string \<Rightarrow> nat" where
  "strlen s = length (cstr s)"

text \<open>\<^verbatim>\<open>strncmp(a, b, n) == 0\<close> and \<^verbatim>\<open>strcmp(a, b) == 0\<close>.\<close>

definition strncmp_eq :: "string \<Rightarrow> string \<Rightarrow> nat \<Rightarrow> bool" where
  "strncmp_eq a b n = (take n (cstr a) = take n (cstr b))"

definition strcmp_eq :: "string \<Rightarrow> string \<Rightarrow> bool" where
  "strcmp_eq a b = (cstr a = cstr b)"

text \<open>\<^verbatim>\<open>strchr(set, c) != NULL\<close>: the terminator of \<open>chars\<close> counts as a member.\<close>

definition strchr_found :: "string \<Rightarrow> char \<Rightarrow> bool" where
  "strchr_found chars c = (c \<in> set (cstr chars) \<or> c = NUL)"

text \<open>\<^verbatim>\<open>isspace\<close> in the C locale: space, and \<^verbatim>\<open>\t \n \v \f \r\<close>.\<close>

definition isspace :: "char \<Rightarrow> bool" where
  "isspace c = (c = CHR 0x20 \<or> c = CHR 0x09 \<or> c = CHR 0x0A \<or> c = CHR 0x0B
                 \<or> c = CHR 0x0C \<or> c = CHR 0x0D)"

text \<open>\<^verbatim>\<open>SKIP_CHAR\<close> and \<^verbatim>\<open>SKIP_WHITESPACES\<close>.\<close>

definition SKIP_CHAR :: "string \<Rightarrow> string" where
  "SKIP_CHAR s = drop 1 s"

fun SKIP_WHITESPACES :: "string \<Rightarrow> string" where
  "SKIP_WHITESPACES [] = []"
| "SKIP_WHITESPACES (c # s) = (if isspace c then SKIP_WHITESPACES s else c # s)"

text \<open>
  A \<^verbatim>\<open>double\<close> is the real number it denotes, or a value that is not finite (NaN or an
  infinity); the negative zero is not told from zero. What the program computes with
  doubles is done by the C library and by the machine's arithmetic, not by this program,
  so these are parameters of the model:
  \<^item> \<open>strtod L s\<close> is what \<^verbatim>\<open>strtod(s, &end)\<close> does after \<^verbatim>\<open>errno = 0\<close>: the value returned, the
    number of bytes consumed (\<^verbatim>\<open>end - s\<close>), and whether \<^verbatim>\<open>errno\<close> is set afterwards;
  \<^item> \<open>sprintf_float L x\<close> is the text \<^verbatim>\<open>sprintf(buf, "%1.17g", x)\<close> writes, \<open>None\<close> when it
    returns a negative number;
  \<^item> \<open>fsub L x y\<close> is the double that the subtraction \<^verbatim>\<open>x - y\<close> of two doubles yields, that
    is the difference rounded to a double, or a value that is not finite.

  The constant \<^verbatim>\<open>0.000001\<close> of the source is a double: the double nearest to \<open>10\<^sup>-\<^sup>6\<close>, which
  is \<open>4722366482869645 / 2\<^sup>7\<^sup>2\<close> and lies below \<open>10\<^sup>-\<^sup>6\<close>.
\<close>

datatype double = Finite real | NonFinite

record strtod_result =
  sd_value :: double
  sd_end :: nat
  sd_errno :: bool

record libc =
  strtod :: "string \<Rightarrow> strtod_result"
  sprintf_float :: "real \<Rightarrow> string option"
  fsub :: "real \<Rightarrow> real \<Rightarrow> double"

definition EPSILON :: real where
  "EPSILON = 4722366482869645 / 2 ^ 72"

section \<open>The value model\<close>

text \<open>
  \<^verbatim>\<open>struct json_value_t\<close> is a type tag and a union; the tags are the constructors of
  \<open>json_value\<close>. Ownership is tree-shaped, so a pointer to an owned child is modelled by
  the child itself. A container keeps \<^verbatim>\<open>count\<close> live slots of a backing store of
  \<^verbatim>\<open>capacity\<close> slots: the live slots are a list (its length is \<^verbatim>\<open>count\<close>), the capacity is
  kept beside it. The parent and wrapping-value pointers are determined by the position
  in the tree and are not part of this model. Allocation is assumed to succeed.
\<close>

datatype JSON_Status = JSONSuccess | JSONFailure

datatype 'v json_array_t = JSON_Array (items: "'v list") (array_capacity: nat)

datatype 'v json_object_t = JSON_Object (members: "(string \<times> 'v) list") (object_capacity: nat)

datatype json_value =
    JSONNull
  | JSONString string
  | JSONNumber real
  | JSONObject "json_value json_object_t"
  | JSONArray "json_value json_array_t"
  | JSONBoolean bool

definition STARTING_CAPACITY :: nat where
  "STARTING_CAPACITY = 16"

definition MAX_NESTING :: nat where
  "MAX_NESTING = 2048"

definition json_object_get_count :: "'v json_object_t \<Rightarrow> nat" where
  "json_object_get_count object = length (members object)"

definition json_array_get_count :: "'v json_array_t \<Rightarrow> nat" where
  "json_array_get_count array = length (items array)"

definition json_value_init_object :: json_value where
  "json_value_init_object = JSONObject (JSON_Object [] 0)"

definition json_value_init_array :: json_value where
  "json_value_init_array = JSONArray (JSON_Array [] 0)"

definition json_value_init_number :: "double \<Rightarrow> json_value option" where
  "json_value_init_number number =
     (case number of NonFinite \<Rightarrow> None | Finite x \<Rightarrow> Some (JSONNumber x))"

definition json_value_init_boolean :: "bool \<Rightarrow> json_value" where
  "json_value_init_boolean boolean = JSONBoolean boolean"

definition json_value_init_null :: json_value where
  "json_value_init_null = JSONNull"

definition json_value_init_string_no_copy :: "string \<Rightarrow> json_value" where
  "json_value_init_string_no_copy string = JSONString (cstr string)"

section \<open>Numbers\<close>

fun is_decimal_loop :: "string \<Rightarrow> nat \<Rightarrow> bool" where
  "is_decimal_loop string 0 = True"
| "is_decimal_loop string (Suc len) =
     (if strchr_found ''xX'' (char_at string len) then False
      else is_decimal_loop string len)"

definition is_decimal :: "string \<Rightarrow> nat \<Rightarrow> bool" where
  "is_decimal string len =
     (if len > 1 \<and> char_at string 0 = CHR ''0'' \<and> char_at string 1 \<noteq> CHR ''.'' then False
      else if len > 2 \<and> strncmp_eq string ''-0'' 2 \<and> char_at string 2 \<noteq> CHR ''.'' then False
      else is_decimal_loop string len)"

definition parse_number_value :: "libc \<Rightarrow> string \<Rightarrow> (json_value \<times> string) option" where
  "parse_number_value L string =
     (let r = strtod L string in
      if sd_errno r \<or> \<not> is_decimal string (sd_end r) then None
      else (case json_value_init_number (sd_value r) of
              None \<Rightarrow> None
            | Some v \<Rightarrow> Some (v, drop (sd_end r) string)))"

section \<open>Strings\<close>

definition hex_char_to_int :: "char \<Rightarrow> int" where
  "hex_char_to_int c =
     (if of_char c \<ge> (of_char (CHR ''0'') :: int) \<and> of_char c \<le> (of_char (CHR ''9'') :: int)
        then of_char c - of_char (CHR ''0'')
      else if of_char c \<ge> (of_char (CHR ''a'') :: int) \<and> of_char c \<le> (of_char (CHR ''f'') :: int)
        then of_char c - of_char (CHR ''a'') + 10
      else if of_char c \<ge> (of_char (CHR ''A'') :: int) \<and> of_char c \<le> (of_char (CHR ''F'') :: int)
        then of_char c - of_char (CHR ''A'') + 10
      else - 1)"

definition parse_utf16_hex :: "string \<Rightarrow> int option" where
  "parse_utf16_hex s =
     (if char_at s 0 = NUL \<or> char_at s 1 = NUL \<or> char_at s 2 = NUL \<or> char_at s 3 = NUL then None
      else
        let x1 = hex_char_to_int (char_at s 0);
            x2 = hex_char_to_int (char_at s 1);
            x3 = hex_char_to_int (char_at s 2);
            x4 = hex_char_to_int (char_at s 3)
        in if x1 = - 1 \<or> x2 = - 1 \<or> x3 = - 1 \<or> x4 = - 1 then None
           else Some (push_bit 12 x1 OR push_bit 8 x2 OR push_bit 4 x3 OR x4))"

definition parse_utf16 :: "string \<Rightarrow> (string \<times> string) option" where
  "parse_utf16 unprocessed =
     (let unprocessed_ptr = drop 1 unprocessed in
      case parse_utf16_hex unprocessed_ptr of
        None \<Rightarrow> None
      | Some cp \<Rightarrow>
          if cp < 0x80 then
            Some (drop 3 unprocessed_ptr, [char_of cp])
          else if cp < 0x800 then
            Some (drop 3 unprocessed_ptr,
                  [char_of ((drop_bit 6 cp AND 0x1F) OR 0xC0),
                   char_of ((cp AND 0x3F) OR 0x80)])
          else if cp < 0xD800 \<or> cp > 0xDFFF then
            Some (drop 3 unprocessed_ptr,
                  [char_of ((drop_bit 12 cp AND 0x0F) OR 0xE0),
                   char_of ((drop_bit 6 cp AND 0x3F) OR 0x80),
                   char_of ((cp AND 0x3F) OR 0x80)])
          else if cp \<ge> 0xD800 \<and> cp \<le> 0xDBFF then
            (let lead = cp;
                 unprocessed_ptr = drop 4 unprocessed_ptr
             in if peek unprocessed_ptr \<noteq> backslash \<or> peek (drop 1 unprocessed_ptr) \<noteq> CHR ''u''
                then None
                else
                  let unprocessed_ptr = drop 2 unprocessed_ptr in
                  case parse_utf16_hex unprocessed_ptr of
                    None \<Rightarrow> None
                  | Some trail \<Rightarrow>
                      if trail < 0xDC00 \<or> trail > 0xDFFF then None
                      else
                        let cp = (push_bit 10 ((lead - 0xD800) AND 0x3FF)
                                   OR ((trail - 0xDC00) AND 0x3FF)) + 0x010000
                        in Some (drop 3 unprocessed_ptr,
                                 [char_of ((drop_bit 18 cp AND 0x07) OR 0xF0),
                                  char_of ((drop_bit 12 cp AND 0x3F) OR 0x80),
                                  char_of ((drop_bit 6 cp AND 0x3F) OR 0x80),
                                  char_of ((cp AND 0x3F) OR 0x80)]))
          else None)"

lemma parse_utf16_length:
  "parse_utf16 s = Some (s', bs) \<Longrightarrow> length s' \<le> length s"
  by (auto simp: parse_utf16_def Let_def split: option.splits if_splits)

lemma peek_drop1: "peek s \<noteq> NUL \<Longrightarrow> length (drop 1 s) < length s"
  by (cases s) auto

lemma process_string_loop_term1:
  "peek p \<noteq> NUL \<and> Q \<Longrightarrow>
   ((i, l, drop 1 p, o'), i, l, p, o0) \<in> measure (\<lambda>(input, len, input_ptr, outp). length input_ptr)"
  by (cases p) auto

lemma process_string_loop_term2:
  "peek p \<noteq> NUL \<and> Q \<Longrightarrow> x = drop 1 p \<Longrightarrow>
   ((i, l, drop 1 x, o'), i, l, p, o0) \<in> measure (\<lambda>(input, len, input_ptr, outp). length input_ptr)"
  by (cases p) auto

lemma process_string_loop_term3:
  "peek p \<noteq> NUL \<and> Q \<Longrightarrow> x = drop 1 p \<Longrightarrow> parse_utf16 x = Some x2 \<Longrightarrow> (xa, y) = x2 \<Longrightarrow>
   ((i, l, drop 1 xa, o'), i, l, p, o0) \<in> measure (\<lambda>(input, len, input_ptr, outp). length input_ptr)"
  using parse_utf16_length [of x xa y] by (cases p) auto

function process_string_loop :: "string \<Rightarrow> nat \<Rightarrow> string \<Rightarrow> string \<Rightarrow> string option" where
  "process_string_loop input len input_ptr output =
     (if peek input_ptr \<noteq> NUL \<and> length input - length input_ptr < len then
        (if peek input_ptr = backslash then
           (let input_ptr = drop 1 input_ptr in
            if peek input_ptr = dquote then
              process_string_loop input len (drop 1 input_ptr) (output @ [dquote])
            else if peek input_ptr = backslash then
              process_string_loop input len (drop 1 input_ptr) (output @ [backslash])
            else if peek input_ptr = CHR ''/'' then
              process_string_loop input len (drop 1 input_ptr) (output @ [CHR ''/''])
            else if peek input_ptr = CHR ''b'' then
              process_string_loop input len (drop 1 input_ptr) (output @ [CHR 0x08])
            else if peek input_ptr = CHR ''f'' then
              process_string_loop input len (drop 1 input_ptr) (output @ [CHR 0x0C])
            else if peek input_ptr = CHR ''n'' then
              process_string_loop input len (drop 1 input_ptr) (output @ [CHR 0x0A])
            else if peek input_ptr = CHR ''r'' then
              process_string_loop input len (drop 1 input_ptr) (output @ [CHR 0x0D])
            else if peek input_ptr = CHR ''t'' then
              process_string_loop input len (drop 1 input_ptr) (output @ [CHR 0x09])
            else if peek input_ptr = CHR ''u'' then
              (case parse_utf16 input_ptr of
                 None \<Rightarrow> None
               | Some (input_ptr, bytes) \<Rightarrow>
                   process_string_loop input len (drop 1 input_ptr) (output @ bytes))
            else None)
         else if (of_char (peek input_ptr) :: int) < 0x20 then None
         else process_string_loop input len (drop 1 input_ptr) (output @ [peek input_ptr]))
      else Some output)"
  by pat_completeness auto
termination process_string_loop
  apply (relation "measure (\<lambda>(input, len, input_ptr, outp). length input_ptr)")
  apply simp
  apply (erule (1) process_string_loop_term2)+
  apply (erule (3) process_string_loop_term3)
  apply (erule process_string_loop_term1)
  done

definition process_string :: "string \<Rightarrow> nat \<Rightarrow> string option" where
  "process_string input len = map_option cstr (process_string_loop input len input [])"


fun skip_quotes_loop :: "string \<Rightarrow> string option" where
  "skip_quotes_loop [] = None"
| "skip_quotes_loop (c # s) =
     (if c = dquote then Some (c # s)
      else if c = NUL then None
      else if c = backslash then
        (case s of
           [] \<Rightarrow> None
         | d # s' \<Rightarrow> if d = NUL then None else skip_quotes_loop s')
      else skip_quotes_loop s)"

definition skip_quotes :: "string \<Rightarrow> string option" where
  "skip_quotes string =
     (if peek string \<noteq> dquote then None
      else (case skip_quotes_loop (SKIP_CHAR string) of
              None \<Rightarrow> None
            | Some string \<Rightarrow> Some (SKIP_CHAR string)))"

definition get_quoted_string :: "string \<Rightarrow> (string \<times> string) option" where
  "get_quoted_string string_start =
     (case skip_quotes string_start of
        None \<Rightarrow> None
      | Some string \<Rightarrow>
          (let string_len = length string_start - length string - 2 in
           case process_string (drop 1 string_start) string_len of
             None \<Rightarrow> None
           | Some new_string \<Rightarrow> Some (new_string, string)))"

section \<open>Containers\<close>

definition parson_strndup :: "string \<Rightarrow> nat \<Rightarrow> string" where
  "parson_strndup string n = take n (cstr string)"

fun json_object_getn_value_loop :: "(string \<times> 'v) list \<Rightarrow> string \<Rightarrow> nat \<Rightarrow> 'v option" where
  "json_object_getn_value_loop [] name name_len = None"
| "json_object_getn_value_loop ((n, v) # rest) name name_len =
     (if strlen n \<noteq> name_len then json_object_getn_value_loop rest name name_len
      else if strncmp_eq n name name_len then Some v
      else json_object_getn_value_loop rest name name_len)"

definition json_object_getn_value :: "'v json_object_t \<Rightarrow> string \<Rightarrow> nat \<Rightarrow> 'v option" where
  "json_object_getn_value object name name_len =
     json_object_getn_value_loop (members object) name name_len"

definition json_object_get_value :: "'v json_object_t \<Rightarrow> string \<Rightarrow> 'v option" where
  "json_object_get_value object name = json_object_getn_value object name (strlen name)"

definition json_object_resize :: "'v json_object_t \<Rightarrow> nat \<Rightarrow> JSON_Status \<times> 'v json_object_t" where
  "json_object_resize object new_capacity =
     (if new_capacity = 0 then (JSONFailure, object)
      else (JSONSuccess, JSON_Object (members object) new_capacity))"

definition json_object_addn ::
  "'v json_object_t \<Rightarrow> string \<Rightarrow> nat \<Rightarrow> 'v \<Rightarrow> JSON_Status \<times> 'v json_object_t" where
  "json_object_addn object name name_len value =
     (if json_object_getn_value object name name_len \<noteq> None then (JSONFailure, object)
      else
        (case (if json_object_get_count object \<ge> object_capacity object
               then json_object_resize object (max (object_capacity object * 2) STARTING_CAPACITY)
               else (JSONSuccess, object)) of
           (JSONFailure, object) \<Rightarrow> (JSONFailure, object)
         | (JSONSuccess, object) \<Rightarrow>
             (JSONSuccess,
              JSON_Object (members object @ [(parson_strndup name name_len, value)])
                          (object_capacity object))))"

definition json_object_add :: "'v json_object_t \<Rightarrow> string \<Rightarrow> 'v \<Rightarrow> JSON_Status \<times> 'v json_object_t" where
  "json_object_add object name value = json_object_addn object name (strlen name) value"

definition json_array_resize :: "'v json_array_t \<Rightarrow> nat \<Rightarrow> JSON_Status \<times> 'v json_array_t" where
  "json_array_resize array new_capacity =
     (if new_capacity = 0 then (JSONFailure, array)
      else (JSONSuccess, JSON_Array (items array) new_capacity))"

definition json_array_add :: "'v json_array_t \<Rightarrow> 'v \<Rightarrow> JSON_Status \<times> 'v json_array_t" where
  "json_array_add array value =
     (case (if json_array_get_count array \<ge> array_capacity array
            then json_array_resize array (max (array_capacity array * 2) STARTING_CAPACITY)
            else (JSONSuccess, array)) of
        (JSONFailure, array) \<Rightarrow> (JSONFailure, array)
      | (JSONSuccess, array) \<Rightarrow>
          (JSONSuccess, JSON_Array (items array @ [value]) (array_capacity array)))"

section \<open>The parser\<close>

definition parse_string_value :: "string \<Rightarrow> (json_value \<times> string) option" where
  "parse_string_value string =
     (case get_quoted_string string of
        None \<Rightarrow> None
      | Some (new_string, string) \<Rightarrow> Some (json_value_init_string_no_copy new_string, string))"

definition parse_boolean_value :: "string \<Rightarrow> (json_value \<times> string) option" where
  "parse_boolean_value string =
     (if strncmp_eq ''true'' string 4 then Some (json_value_init_boolean True, drop 4 string)
      else if strncmp_eq ''false'' string 5 then Some (json_value_init_boolean False, drop 5 string)
      else None)"

definition parse_null_value :: "string \<Rightarrow> (json_value \<times> string) option" where
  "parse_null_value string =
     (if strncmp_eq ''null'' string 4 then Some (json_value_init_null, drop 4 string)
      else None)"

definition is_digit_char :: "char \<Rightarrow> bool" where
  "is_digit_char c = (c \<in> set ''0123456789'')"

function (domintros)
    parse_value :: "libc \<Rightarrow> string \<Rightarrow> nat \<Rightarrow> (json_value \<times> string) option"
and parse_object_value :: "libc \<Rightarrow> string \<Rightarrow> nat \<Rightarrow> (json_value \<times> string) option"
and parse_object_loop ::
      "libc \<Rightarrow> string \<Rightarrow> nat \<Rightarrow> json_value json_object_t \<Rightarrow> (json_value json_object_t \<times> string) option"
and parse_array_value :: "libc \<Rightarrow> string \<Rightarrow> nat \<Rightarrow> (json_value \<times> string) option"
and parse_array_loop ::
      "libc \<Rightarrow> string \<Rightarrow> nat \<Rightarrow> json_value json_array_t \<Rightarrow> (json_value json_array_t \<times> string) option"
where
  "parse_value L string0 nesting =
     (if nesting > MAX_NESTING then None
      else
        let string = SKIP_WHITESPACES string0 in
        if peek string = CHR ''{'' then parse_object_value L string (nesting + 1)
        else if peek string = CHR ''['' then parse_array_value L string (nesting + 1)
        else if peek string = dquote then parse_string_value string
        else if peek string = CHR ''f'' \<or> peek string = CHR ''t'' then parse_boolean_value string
        else if peek string = CHR ''-'' \<or> is_digit_char (peek string) then parse_number_value L string
        else if peek string = CHR ''n'' then parse_null_value string
        else None)"
| "parse_object_value L string0 nesting =
     (if peek string0 \<noteq> CHR ''{'' then None
      else
        let string = SKIP_WHITESPACES (SKIP_CHAR string0) in
        if peek string = CHR ''}'' then Some (json_value_init_object, SKIP_CHAR string)
        else
          (case parse_object_loop L string nesting (JSON_Object [] 0) of
             None \<Rightarrow> None
           | Some (output_object, string) \<Rightarrow>
               (let string = SKIP_WHITESPACES string in
                if peek string \<noteq> CHR ''}''
                   \<or> fst (json_object_resize output_object (json_object_get_count output_object))
                       = JSONFailure
                then None
                else Some (JSONObject (snd (json_object_resize output_object
                                              (json_object_get_count output_object))),
                           SKIP_CHAR string))))"
| "parse_object_loop L string0 nesting output_object =
     (if peek string0 = NUL then Some (output_object, string0)
      else
        (case get_quoted_string string0 of
           None \<Rightarrow> None
         | Some (new_key, string1) \<Rightarrow>
             (let string2 = SKIP_WHITESPACES string1 in
              if peek string2 \<noteq> CHR '':'' then None
              else
                (case parse_value L (SKIP_CHAR string2) nesting of
                   None \<Rightarrow> None
                 | Some (new_value, string3) \<Rightarrow>
                     (case json_object_add output_object new_key new_value of
                        (JSONFailure, output_object) \<Rightarrow> None
                      | (JSONSuccess, output_object) \<Rightarrow>
                          (let string4 = SKIP_WHITESPACES string3 in
                           if peek string4 \<noteq> CHR '','' then Some (output_object, string4)
                           else parse_object_loop L (SKIP_WHITESPACES (SKIP_CHAR string4))
                                  nesting output_object))))))"
| "parse_array_value L string0 nesting =
     (if peek string0 \<noteq> CHR ''['' then None
      else
        let string = SKIP_WHITESPACES (SKIP_CHAR string0) in
        if peek string = CHR '']'' then Some (json_value_init_array, SKIP_CHAR string)
        else
          (case parse_array_loop L string nesting (JSON_Array [] 0) of
             None \<Rightarrow> None
           | Some (output_array, string) \<Rightarrow>
               (let string = SKIP_WHITESPACES string in
                if peek string \<noteq> CHR '']''
                   \<or> fst (json_array_resize output_array (json_array_get_count output_array))
                       = JSONFailure
                then None
                else Some (JSONArray (snd (json_array_resize output_array
                                             (json_array_get_count output_array))),
                           SKIP_CHAR string))))"
| "parse_array_loop L string0 nesting output_array =
     (if peek string0 = NUL then Some (output_array, string0)
      else
        (case parse_value L string0 nesting of
           None \<Rightarrow> None
         | Some (new_array_value, string1) \<Rightarrow>
             (case json_array_add output_array new_array_value of
                (JSONFailure, output_array) \<Rightarrow> None
              | (JSONSuccess, output_array) \<Rightarrow>
                  (let string2 = SKIP_WHITESPACES string1 in
                   if peek string2 \<noteq> CHR '','' then Some (output_array, string2)
                   else parse_array_loop L (SKIP_WHITESPACES (SKIP_CHAR string2))
                          nesting output_array))))"
  by pat_completeness auto


lemma length_SKIP_WHITESPACES: "length (SKIP_WHITESPACES s) \<le> length s"
  by (induction s) auto

lemma length_SKIP_CHAR: "length (SKIP_CHAR s) \<le> length s"
  by (simp add: SKIP_CHAR_def)

lemma length_SKIP_CHAR_peek: "peek s \<noteq> NUL \<Longrightarrow> length (SKIP_CHAR s) < length s"
  by (cases s) (auto simp: SKIP_CHAR_def)

lemma skip_quotes_loop_length: "skip_quotes_loop s = Some r \<Longrightarrow> length r \<le> length s \<and> peek r = dquote"
  by (induction s arbitrary: r rule: skip_quotes_loop.induct)
     (fastforce simp: dquote_def NUL_def backslash_def split: if_splits list.splits)+

lemma skip_quotes_length: "skip_quotes s = Some r \<Longrightarrow> length r < length s"
proof -
  assume a: "skip_quotes s = Some r"
  then obtain q where q: "skip_quotes_loop (SKIP_CHAR s) = Some q" "r = SKIP_CHAR q" "peek s = dquote"
    by (auto simp: skip_quotes_def split: if_splits option.splits)
  from skip_quotes_loop_length [OF q(1)] have "length q \<le> length (SKIP_CHAR s)" "peek q = dquote" by auto
  moreover have "length (SKIP_CHAR q) < length q" using \<open>peek q = dquote\<close>
    by (intro length_SKIP_CHAR_peek) (simp add: dquote_def NUL_def)
  ultimately show ?thesis using q(2) length_SKIP_CHAR [of s] by simp
qed

lemma get_quoted_string_length: "get_quoted_string s = Some (k, r) \<Longrightarrow> length r < length s"
  by (auto simp: get_quoted_string_def Let_def split: option.splits dest: skip_quotes_length)

lemma parse_string_value_length: "parse_string_value s = Some (v, r) \<Longrightarrow> length r \<le> length s"
  by (auto simp: parse_string_value_def split: option.splits dest: get_quoted_string_length)

lemma parse_boolean_value_length: "parse_boolean_value s = Some (v, r) \<Longrightarrow> length r \<le> length s"
  by (auto simp: parse_boolean_value_def split: if_splits)

lemma parse_null_value_length: "parse_null_value s = Some (v, r) \<Longrightarrow> length r \<le> length s"
  by (auto simp: parse_null_value_def split: if_splits)

lemma parse_number_value_length: "parse_number_value L s = Some (v, r) \<Longrightarrow> length r \<le> length s"
  by (auto simp: parse_number_value_def Let_def split: if_splits option.splits)

lemma parse_length_partial:
  "parse_value_parse_object_value_parse_object_loop_parse_array_value_parse_array_loop_dom (Inl (Inl (L, s, n)))
     \<Longrightarrow> (\<forall>v r. parse_value L s n = Some (v, r) \<longrightarrow> length r \<le> length s)"
  "parse_value_parse_object_value_parse_object_loop_parse_array_value_parse_array_loop_dom (Inl (Inr (L, s1, n1)))
     \<Longrightarrow> (\<forall>v r. parse_object_value L s1 n1 = Some (v, r) \<longrightarrow> length r \<le> length s1)"
  "parse_value_parse_object_value_parse_object_loop_parse_array_value_parse_array_loop_dom (Inr (Inl (L, s2, n2, ob)))
     \<Longrightarrow> (\<forall>v r. parse_object_loop L s2 n2 ob = Some (v, r) \<longrightarrow> length r \<le> length s2)"
  "parse_value_parse_object_value_parse_object_loop_parse_array_value_parse_array_loop_dom (Inr (Inr (Inl (L, s3, n3))))
     \<Longrightarrow> (\<forall>v r. parse_array_value L s3 n3 = Some (v, r) \<longrightarrow> length r \<le> length s3)"
  "parse_value_parse_object_value_parse_object_loop_parse_array_value_parse_array_loop_dom (Inr (Inr (Inr (L, s4, n4, ar))))
     \<Longrightarrow> (\<forall>v r. parse_array_loop L s4 n4 ar = Some (v, r) \<longrightarrow> length r \<le> length s4)"
proof (induction rule: parse_value_parse_object_value_parse_object_loop_parse_array_value_parse_array_loop.pinduct)
  case (1 L string0 nesting)
  show ?case
  proof (intro allI impI)
    fix v r assume eq: "parse_value L string0 nesting = Some (v, r)"
    have le: "length (SKIP_WHITESPACES string0) \<le> length string0" by (rule length_SKIP_WHITESPACES)
    from eq have nn: "\<not> MAX_NESTING < nesting"
      by (simp add: parse_value.psimps [OF "1.hyps"] split: if_splits)
    let ?s = "SKIP_WHITESPACES string0"
    from eq nn consider
        (obj) "peek ?s = CHR ''{''" "parse_object_value L ?s (nesting + 1) = Some (v, r)"
      | (arr) "peek ?s \<noteq> CHR ''{''" "peek ?s = CHR ''[''" "parse_array_value L ?s (nesting + 1) = Some (v, r)"
      | (str) "parse_string_value ?s = Some (v, r)"
      | (boo) "parse_boolean_value ?s = Some (v, r)"
      | (num) "parse_number_value L ?s = Some (v, r)"
      | (nul) "parse_null_value ?s = Some (v, r)"
      by (simp add: parse_value.psimps [OF "1.hyps"] Let_def split: if_splits)
    then have "length r \<le> length ?s"
    proof cases
      case obj
      then show ?thesis using "1.IH"(1) [OF nn refl] by blast
    next
      case arr
      then show ?thesis using "1.IH"(2) [OF nn refl] by blast
    qed (auto dest: parse_string_value_length parse_boolean_value_length
               parse_number_value_length parse_null_value_length)
    with le show "length r \<le> length string0" by simp
  qed
next
  case (2 L string0 nesting)
  show ?case
  proof (intro allI impI)
    fix v r assume eq: "parse_object_value L string0 nesting = Some (v, r)"
    let ?s = "SKIP_WHITESPACES (SKIP_CHAR string0)"
    have le: "length ?s \<le> length string0"
      using length_SKIP_WHITESPACES [of "SKIP_CHAR string0"] length_SKIP_CHAR [of string0] by simp
    from eq have br: "\<not> peek string0 \<noteq> CHR ''{''"
      by (simp add: parse_object_value.psimps [OF "2.hyps"] split: if_splits)
    show "length r \<le> length string0"
    proof (cases "peek ?s = CHR ''}''")
      case True
      with eq br have "r = SKIP_CHAR ?s"
        by (simp add: parse_object_value.psimps [OF "2.hyps"] Let_def)
      with le length_SKIP_CHAR [of ?s] show ?thesis by simp
    next
      case False
      with eq br obtain ob q where
        q: "parse_object_loop L ?s nesting (JSON_Object [] 0) = Some (ob, q)"
           "r = SKIP_CHAR (SKIP_WHITESPACES q)"
        by (auto simp add: parse_object_value.psimps [OF "2.hyps"] Let_def split: option.splits if_splits)
      from "2.IH" [OF br refl False] q(1) have "length q \<le> length ?s" by blast
      with le q(2) length_SKIP_CHAR [of "SKIP_WHITESPACES q"] length_SKIP_WHITESPACES [of q]
      show ?thesis by simp
    qed
  qed
next
  case (3 L string0 nesting output_object)
  show ?case
  proof (intro allI impI)
    fix v r assume eq: "parse_object_loop L string0 nesting output_object = Some (v, r)"
    show "length r \<le> length string0"
    proof (cases "peek string0 = NUL")
      case True
      with eq show ?thesis by (simp add: parse_object_loop.psimps [OF "3.hyps"])
    next
      case False
      with eq obtain k s1 nv s3 ob' where
        g: "get_quoted_string string0 = Some (k, s1)"
        and c: "\<not> peek (SKIP_WHITESPACES s1) \<noteq> CHR '':''"
        and pv: "parse_value L (SKIP_CHAR (SKIP_WHITESPACES s1)) nesting = Some (nv, s3)"
        and ad: "json_object_add output_object k nv = (JSONSuccess, ob')"
        and rest: "(peek (SKIP_WHITESPACES s3) \<noteq> CHR '','' \<and> r = SKIP_WHITESPACES s3) \<or>
                   (peek (SKIP_WHITESPACES s3) = CHR '','' \<and>
                    parse_object_loop L (SKIP_WHITESPACES (SKIP_CHAR (SKIP_WHITESPACES s3))) nesting ob' = Some (v, r))"
        by (auto simp add: parse_object_loop.psimps [OF "3.hyps"] Let_def
                 split: option.splits if_splits prod.splits JSON_Status.splits)
      have l1: "length s1 < length string0" using g by (rule get_quoted_string_length)
      have l3: "length s3 \<le> length (SKIP_CHAR (SKIP_WHITESPACES s1))"
        using "3.IH"(1) [OF False g refl refl c] pv by blast
      have l3': "length s3 < length string0"
        using l1 l3 length_SKIP_CHAR [of "SKIP_WHITESPACES s1"] length_SKIP_WHITESPACES [of s1] by simp
      from rest show ?thesis
      proof
        assume "peek (SKIP_WHITESPACES s3) \<noteq> CHR '','' \<and> r = SKIP_WHITESPACES s3"
        then show ?thesis using l3' length_SKIP_WHITESPACES [of s3] by simp
      next
        assume a: "peek (SKIP_WHITESPACES s3) = CHR '','' \<and>
              parse_object_loop L (SKIP_WHITESPACES (SKIP_CHAR (SKIP_WHITESPACES s3))) nesting ob' = Some (v, r)"
        then have nc: "\<not> peek (SKIP_WHITESPACES s3) \<noteq> CHR '',''" by simp
        have "length r \<le> length (SKIP_WHITESPACES (SKIP_CHAR (SKIP_WHITESPACES s3)))"
          using "3.IH"(2) [OF False g refl refl c pv refl ad [symmetric] refl refl nc] a by blast
        then show ?thesis
          using l3' length_SKIP_WHITESPACES [of s3] length_SKIP_CHAR [of "SKIP_WHITESPACES s3"]
            length_SKIP_WHITESPACES [of "SKIP_CHAR (SKIP_WHITESPACES s3)"] by simp
      qed
    qed
  qed
next
  case (4 L string0 nesting)
  show ?case
  proof (intro allI impI)
    fix v r assume eq: "parse_array_value L string0 nesting = Some (v, r)"
    let ?s = "SKIP_WHITESPACES (SKIP_CHAR string0)"
    have le: "length ?s \<le> length string0"
      using length_SKIP_WHITESPACES [of "SKIP_CHAR string0"] length_SKIP_CHAR [of string0] by simp
    from eq have br: "\<not> peek string0 \<noteq> CHR ''[''"
      by (simp add: parse_array_value.psimps [OF "4.hyps"] split: if_splits)
    show "length r \<le> length string0"
    proof (cases "peek ?s = CHR '']''")
      case True
      with eq br have "r = SKIP_CHAR ?s"
        by (simp add: parse_array_value.psimps [OF "4.hyps"] Let_def)
      with le length_SKIP_CHAR [of ?s] show ?thesis by simp
    next
      case False
      with eq br obtain ob q where
        q: "parse_array_loop L ?s nesting (JSON_Array [] 0) = Some (ob, q)"
           "r = SKIP_CHAR (SKIP_WHITESPACES q)"
        by (auto simp add: parse_array_value.psimps [OF "4.hyps"] Let_def split: option.splits if_splits)
      from "4.IH" [OF br refl False] q(1) have "length q \<le> length ?s" by blast
      with le q(2) length_SKIP_CHAR [of "SKIP_WHITESPACES q"] length_SKIP_WHITESPACES [of q]
      show ?thesis by simp
    qed
  qed
next
  case (5 L string0 nesting output_array)
  show ?case
  proof (intro allI impI)
    fix v r assume eq: "parse_array_loop L string0 nesting output_array = Some (v, r)"
    show "length r \<le> length string0"
    proof (cases "peek string0 = NUL")
      case True
      with eq show ?thesis by (simp add: parse_array_loop.psimps [OF "5.hyps"])
    next
      case False
      with eq obtain nv s1 ar' where
        pv: "parse_value L string0 nesting = Some (nv, s1)"
        and ad: "json_array_add output_array nv = (JSONSuccess, ar')"
        and rest: "(peek (SKIP_WHITESPACES s1) \<noteq> CHR '','' \<and> r = SKIP_WHITESPACES s1) \<or>
                   (peek (SKIP_WHITESPACES s1) = CHR '','' \<and>
                    parse_array_loop L (SKIP_WHITESPACES (SKIP_CHAR (SKIP_WHITESPACES s1))) nesting ar' = Some (v, r))"
        by (auto simp add: parse_array_loop.psimps [OF "5.hyps"] Let_def
                 split: option.splits if_splits prod.splits JSON_Status.splits)
      have l1: "length s1 \<le> length string0"
        using "5.IH"(1) [OF False] pv by blast
      from rest show ?thesis
      proof
        assume "peek (SKIP_WHITESPACES s1) \<noteq> CHR '','' \<and> r = SKIP_WHITESPACES s1"
        then show ?thesis using l1 length_SKIP_WHITESPACES [of s1] by simp
      next
        assume a: "peek (SKIP_WHITESPACES s1) = CHR '','' \<and>
              parse_array_loop L (SKIP_WHITESPACES (SKIP_CHAR (SKIP_WHITESPACES s1))) nesting ar' = Some (v, r)"
        then have nc: "\<not> peek (SKIP_WHITESPACES s1) \<noteq> CHR '',''" by simp
        have "length r \<le> length (SKIP_WHITESPACES (SKIP_CHAR (SKIP_WHITESPACES s1)))"
          using "5.IH"(2) [OF False pv refl ad [symmetric] refl refl nc] a by blast
        then show ?thesis
          using l1 length_SKIP_WHITESPACES [of s1] length_SKIP_CHAR [of "SKIP_WHITESPACES s1"]
            length_SKIP_WHITESPACES [of "SKIP_CHAR (SKIP_WHITESPACES s1)"] by simp
      qed
    qed
  qed
qed

termination parse_value
proof (relation "inv_image (less_than <*lex*> less_than)
         (\<lambda>x. case x of
            Inl (Inl (L, s, n)) \<Rightarrow> (length s, 1::nat)
          | Inl (Inr (L, s, n)) \<Rightarrow> (length s, 0)
          | Inr (Inl (L, s, n, ob)) \<Rightarrow> (length s, 2)
          | Inr (Inr (Inl (L, s, n))) \<Rightarrow> (length s, 0)
          | Inr (Inr (Inr (L, s, n, ar))) \<Rightarrow> (length s, 2))", goal_cases)
  case 1
  show ?case by (intro wf_inv_image wf_lex_prod wf_less_than)
next
  case (2 L string0 nesting x)
  then show ?case using length_SKIP_WHITESPACES [of string0] by auto
next
  case (3 L string0 nesting x)
  then show ?case using length_SKIP_WHITESPACES [of string0] by auto
next
  case (4 L string0 nesting x)
  then have "peek string0 \<noteq> NUL" by (auto simp: NUL_def)
  from length_SKIP_CHAR_peek [OF this] 4 show ?case
    using length_SKIP_WHITESPACES [of "SKIP_CHAR string0"] by auto
next
  case (5 L string0 nesting output_object x2 x y xa)
  then have "length y < length string0" by (auto dest: get_quoted_string_length)
  with 5 show ?case
    using length_SKIP_WHITESPACES [of y] length_SKIP_CHAR [of "SKIP_WHITESPACES y"] by auto
next
  case (6 L string0 nesting output_object x2 x y xa x2a xaa ya xab yb xb)
  then have l1: "length y < length string0" by (auto dest: get_quoted_string_length)
  from 6 have "length ya \<le> length (SKIP_CHAR xa)"
    using parse_length_partial(1) [of L "SKIP_CHAR xa" nesting] by auto
  with l1 6 show ?case
    using length_SKIP_WHITESPACES [of y] length_SKIP_CHAR [of "SKIP_WHITESPACES y"]
      length_SKIP_WHITESPACES [of ya] length_SKIP_CHAR [of "SKIP_WHITESPACES ya"]
      length_SKIP_WHITESPACES [of "SKIP_CHAR (SKIP_WHITESPACES ya)"]
    by auto
next
  case (7 L string0 nesting x)
  then have "peek string0 \<noteq> NUL" by (auto simp: NUL_def)
  from length_SKIP_CHAR_peek [OF this] 7 show ?case
    using length_SKIP_WHITESPACES [of "SKIP_CHAR string0"] by auto
next
  case (8 L string0 nesting output_array)
  then show ?case by simp
next
  case (9 L string0 nesting output_array x2 x y xa ya xb)
  then have l1: "length y \<le> length string0"
    using parse_length_partial(1) [of L string0 nesting] by auto
  from 9 have "peek xb \<noteq> NUL" by (auto simp: NUL_def)
  from length_SKIP_CHAR_peek [OF this] l1 9 show ?case
    using length_SKIP_WHITESPACES [of y] length_SKIP_WHITESPACES [of "SKIP_CHAR xb"]
    by auto
qed

definition json_parse_string :: "libc \<Rightarrow> string \<Rightarrow> json_value option" where
  "json_parse_string L string =
     (let string = (if char_at string 0 = CHR 0xEF \<and> char_at string 1 = CHR 0xBB \<and> char_at string 2 = CHR 0xBF
                    then drop 3 string else string)
      in map_option fst (parse_value L string 0))"

declare parse_value.simps [simp del] parse_object_value.simps [simp del]
  parse_object_loop.simps [simp del] parse_array_value.simps [simp del]
  parse_array_loop.simps [simp del]

section \<open>An instance of the C library\<close>

text \<open>
  For concrete evaluation the parameters are instantiated with conversions restricted to
  short decimal texts. \<open>strtod_integers\<close> reads an optional minus sign and decimal digits;
  \<open>strtod_decimals\<close> reads, after them, an optional point and further digits;
  \<open>sprintf_integers\<close> prints an integer-valued double below \<open>10^17\<close> in decimal. They
  return the real number the text denotes, which is what ISO C \<^verbatim>\<open>strtod\<close> returns only
  when that number is a double (an integer below \<open>2^53\<close>, a short binary fraction), and
  \<open>sprintf_integers\<close> prints \<open>0\<close> for the one real zero, where \<^verbatim>\<open>sprintf("%1.17g")\<close> prints
  \<^verbatim>\<open>-0\<close> for the negative zero that reals do not have. They are used only at such texts
  and numbers, followed by a byte that cannot continue a numeric token; no theorem about
  every C library depends on them. On a text with no digits \<^verbatim>\<open>strtod\<close> converts nothing:
  it returns zero and consumes no byte.
\<close>

definition digit_value :: "char \<Rightarrow> nat" where
  "digit_value c = of_char c - of_char (CHR ''0'')"

definition digits_value :: "string \<Rightarrow> nat" where
  "digits_value ds = foldl (\<lambda>n c. 10 * n + digit_value c) 0 ds"

definition strtod_integers :: "string \<Rightarrow> strtod_result" where
  "strtod_integers s =
     (let negative = (peek s = CHR ''-'');
          ds = takeWhile is_digit_char (if negative then drop 1 s else s)
      in if ds = [] then \<lparr> sd_value = Finite 0, sd_end = 0, sd_errno = False \<rparr>
         else \<lparr> sd_value = Finite (if negative then - real (digits_value ds) else real (digits_value ds)),
                sd_end = length ds + (if negative then 1 else 0),
                sd_errno = False \<rparr>)"

definition strtod_decimals :: "string \<Rightarrow> strtod_result" where
  "strtod_decimals s =
     (let negative = (peek s = CHR ''-'');
          body = (if negative then drop 1 s else s);
          ip = takeWhile is_digit_char body;
          rest = drop (length ip) body;
          fp = (if peek rest = CHR ''.'' then takeWhile is_digit_char (drop 1 rest) else []);
          magnitude = real (digits_value ip) + real (digits_value fp) / 10 ^ length fp
      in if ip = [] \<and> fp = [] then \<lparr> sd_value = Finite 0, sd_end = 0, sd_errno = False \<rparr>
         else \<lparr> sd_value = Finite (if negative then - magnitude else magnitude),
                sd_end = (if negative then 1 else 0) + length ip
                           + (if peek rest = CHR ''.'' then 1 + length fp else 0),
                sd_errno = False \<rparr>)"

function show_nat :: "nat \<Rightarrow> string" where
  "show_nat n = (if n < 10 then [char_of (of_char (CHR ''0'') + n)]
                 else show_nat (n div 10) @ [char_of (of_char (CHR ''0'') + n mod 10)])"
  by pat_completeness auto
termination show_nat
  by (relation "measure id") auto

definition sprintf_integers :: "real \<Rightarrow> string option" where
  "sprintf_integers x =
     (if x = of_int \<lfloor>x\<rfloor> \<and> \<bar>x\<bar> < 10 ^ 17
      then Some ((if x < 0 then ''-'' else []) @ show_nat (nat \<bar>\<lfloor>x\<rfloor>\<bar>))
      else None)"

text \<open>
  The subtraction of the instances is exact. That is the subtraction of doubles whenever
  the difference of the two doubles is a double itself, as it is for a double and zero,
  for a double and itself, and for integers below \<open>2^53\<close> whose difference is below \<open>2^53\<close>.
\<close>

definition fsub_exact :: "real \<Rightarrow> real \<Rightarrow> double" where
  "fsub_exact x y = Finite (x - y)"

definition libc_integers :: libc where
  "libc_integers = \<lparr> strtod = strtod_integers, sprintf_float = sprintf_integers, fsub = fsub_exact \<rparr>"

definition libc_decimals :: libc where
  "libc_decimals = \<lparr> strtod = strtod_decimals, sprintf_float = sprintf_integers, fsub = fsub_exact \<rparr>"

section \<open>Removal\<close>

text \<open>
  Removing a member frees its key and value; in the tree model the pair simply leaves the
  list. \<open>json_object_remove_loop\<close> is the scan for the first slot whose key compares equal.
\<close>

fun json_object_remove_loop :: "(string \<times> 'v) list \<Rightarrow> string \<Rightarrow> nat \<Rightarrow> nat option" where
  "json_object_remove_loop [] name i = None"
| "json_object_remove_loop ((n, v) # rest) name i =
     (if strcmp_eq n name then Some i else json_object_remove_loop rest name (i + 1))"

definition json_object_remove_internal ::
  "'v json_object_t \<Rightarrow> string \<Rightarrow> JSON_Status \<times> 'v json_object_t" where
  "json_object_remove_internal object name =
     (if json_object_get_value object name = None then (JSONFailure, object)
      else
        (let last_item_index = json_object_get_count object - 1 in
         case json_object_remove_loop (members object) name 0 of
           None \<Rightarrow> (JSONFailure, object)
         | Some i \<Rightarrow>
             (JSONSuccess,
              JSON_Object
                (take (json_object_get_count object - 1)
                   (if i \<noteq> last_item_index
                    then (members object)[i := members object ! last_item_index]
                    else members object))
                (object_capacity object))))"

definition json_object_remove :: "'v json_object_t \<Rightarrow> string \<Rightarrow> JSON_Status \<times> 'v json_object_t" where
  "json_object_remove object name = json_object_remove_internal object name"

definition json_array_remove :: "'v json_array_t \<Rightarrow> nat \<Rightarrow> JSON_Status \<times> 'v json_array_t" where
  "json_array_remove array ix =
     (if ix \<ge> json_array_get_count array then (JSONFailure, array)
      else (JSONSuccess,
            JSON_Array (take ix (items array) @ drop (ix + 1) (items array))
                       (array_capacity array)))"

section \<open>Structural equality\<close>

text \<open>
  \<open>json_value_equals\<close> first compares the two type tags, then switches on the tag. A key of
  \<open>a\<close> that is missing in \<open>b\<close> makes \<^verbatim>\<open>json_object_get_value\<close> return \<^verbatim>\<open>NULL\<close>, whose type is
  \<^verbatim>\<open>JSONError\<close>: the tags differ and the comparison fails; two \<^verbatim>\<open>NULL\<close>s compare equal.
  Two numbers are compared by \<^verbatim>\<open>fabs(a - b) < 0.000001\<close>, in doubles: the difference is the
  machine's, and neither an infinity nor a NaN is below the constant.
\<close>

lemma size_getn_value_loop:
  "json_object_getn_value_loop ms name n = Some v \<Longrightarrow> size v < size_list (size_prod (\<lambda>_. 0) size) ms"
  by (induction ms name n rule: json_object_getn_value_loop.induct) (auto split: if_splits)

lemma size_get_value:
  "json_object_get_value a key = Some (x :: json_value) \<Longrightarrow> size x < Suc (size_json_object_t size a)"
  by (cases a) (auto simp: json_object_get_value_def json_object_getn_value_def dest: size_getn_value_loop)

lemma size_list_nth: "i < length xs \<Longrightarrow> f (xs ! i) < Suc (size_list f xs)"
proof (induction xs arbitrary: i)
  case Nil
  then show ?case by simp
next
  case (Cons x xs)
  then show ?case by (cases i) fastforce+
qed

lemma size_items_nth:
  "i < json_array_get_count a \<Longrightarrow> size (items a ! i :: json_value) < Suc (size_json_array_t size a)"
  using size_list_nth [of i "items a" size] by (cases a) (simp add: json_array_get_count_def)

function json_value_equals :: "libc \<Rightarrow> json_value \<Rightarrow> json_value \<Rightarrow> bool" where
  "json_value_equals L a b =
     (case a of
        JSONArray a_array \<Rightarrow>
          (case b of
             JSONArray b_array \<Rightarrow>
               (if json_array_get_count a_array \<noteq> json_array_get_count b_array then False
                else list_all (\<lambda>i. json_value_equals L (items a_array ! i) (items b_array ! i))
                       [0 ..< json_array_get_count a_array])
           | _ \<Rightarrow> False)
      | JSONObject a_object \<Rightarrow>
          (case b of
             JSONObject b_object \<Rightarrow>
               (if json_object_get_count a_object \<noteq> json_object_get_count b_object then False
                else list_all
                       (\<lambda>key. case json_object_get_value a_object key of
                                None \<Rightarrow> json_object_get_value b_object key = None
                              | Some a_value \<Rightarrow>
                                  (case json_object_get_value b_object key of
                                     None \<Rightarrow> False
                                   | Some b_value \<Rightarrow> json_value_equals L a_value b_value))
                       (map fst (members a_object)))
           | _ \<Rightarrow> False)
      | JSONString a_string \<Rightarrow>
          (case b of JSONString b_string \<Rightarrow> strcmp_eq a_string b_string | _ \<Rightarrow> False)
      | JSONBoolean a_boolean \<Rightarrow>
          (case b of JSONBoolean b_boolean \<Rightarrow> a_boolean = b_boolean | _ \<Rightarrow> False)
      | JSONNumber a_number \<Rightarrow>
          (case b of
             JSONNumber b_number \<Rightarrow>
               (case fsub L a_number b_number of
                  NonFinite \<Rightarrow> False
                | Finite difference \<Rightarrow> \<bar>difference\<bar> < EPSILON)
           | _ \<Rightarrow> False)
      | JSONNull \<Rightarrow>
          (case b of JSONNull \<Rightarrow> True | _ \<Rightarrow> False))"
  by pat_completeness auto
termination json_value_equals
  by (relation "measure (\<lambda>(L, a, b). size a)") (auto simp: size_items_nth size_get_value)

declare json_value_equals.simps [simp del]

section \<open>The serializer\<close>



definition int_wrap :: "int \<Rightarrow> int" where
  "int_wrap n = (n + 2 ^ 31) mod 2 ^ 32 - 2 ^ 31"





















section \<open>Lookup by key\<close>

lemma getn_value_loop_Cons:
  "json_object_getn_value_loop ((n, v) # rest) name (strlen name) =
     (if strcmp_eq n name then Some v else json_object_getn_value_loop rest name (strlen name))"
  by (auto simp: strlen_def strncmp_eq_def strcmp_eq_def)

lemma getn_value_loop_hit:
  assumes "strcmp_eq n name" "\<forall>(n', v') \<in> set pre. \<not> strcmp_eq n' name"
  shows "json_object_getn_value_loop (pre @ (n, v) # post) name (strlen name) = Some v"
  using assms
  by (induction pre) (auto simp: getn_value_loop_Cons simp del: json_object_getn_value_loop.simps(2))

lemma getn_value_loop_None_iff:
  "json_object_getn_value_loop ms name (strlen name) = None
     \<longleftrightarrow> (\<forall>(n, v) \<in> set ms. \<not> strcmp_eq n name)"
  by (induction ms) (auto simp: getn_value_loop_Cons split: if_splits simp del: json_object_getn_value_loop.simps(2))

lemma getn_value_loop_Some_mem:
  "json_object_getn_value_loop ms name len = Some v \<Longrightarrow> \<exists>n. (n, v) \<in> set ms"
  by (induction ms name len rule: json_object_getn_value_loop.induct) (auto split: if_splits)

lemma get_value_None_iff:
  "json_object_get_value object name = None
     \<longleftrightarrow> (\<forall>(n, v) \<in> set (members object). \<not> strcmp_eq n name)"
  by (simp add: json_object_get_value_def json_object_getn_value_def getn_value_loop_None_iff)

lemma get_value_distinct:
  assumes "distinct (map (cstr \<circ> fst) (members object))" "(k, v) \<in> set (members object)"
    and "cstr name = cstr k"
  shows "json_object_get_value object name = Some v"
proof -
  from assms(2) obtain pre post where ms: "members object = pre @ (k, v) # post"
    by (auto simp: in_set_conv_decomp)
  with assms(1,3) have "\<forall>(n', v') \<in> set pre. \<not> strcmp_eq n' name"
    by (force simp: strcmp_eq_def)
  then show ?thesis
    using getn_value_loop_hit [of k name pre v post] assms(3)
    by (simp add: json_object_get_value_def json_object_getn_value_def ms strcmp_eq_def)
qed

section \<open>The two passes of the serializer agree\<close>




lemma int_wrap_add: "int_wrap (int_wrap a + b) = int_wrap (a + b)"
proof -
  have "(int_wrap a + b + 2 ^ 31) mod 2 ^ 32 = ((a + 2 ^ 31) mod 2 ^ 32 + b) mod 2 ^ 32"
    by (simp add: int_wrap_def)
  also have "\<dots> = (a + 2 ^ 31 + b) mod 2 ^ 32" by (rule mod_add_left_eq)
  also have "a + 2 ^ 31 + b = a + b + 2 ^ 31" by simp
  finally show ?thesis unfolding int_wrap_def [of "int_wrap a + b"] int_wrap_def [of "a + b"] by simp
qed


























section \<open>The text of a value\<close>




lemma size_items_mem [termination_simp]:
  "x \<in> set (items a) \<Longrightarrow> size (x :: json_value) < Suc (size_json_array_t size a)"
  using size_items_nth [of _ a] by (auto simp: in_set_conv_nth json_array_get_count_def)

lemma size_members_mem [termination_simp]:
  "(k, x) \<in> set (members ob) \<Longrightarrow> size (x :: json_value) < Suc (size_json_object_t size ob)"
proof -
  have "(k, x) \<in> set ms \<Longrightarrow> size x < Suc (size_list (size_prod (\<lambda>_. 0) size) ms)" for ms
    by (induction ms) auto
  then show "(k, x) \<in> set (members ob) \<Longrightarrow> size x < Suc (size_json_object_t size ob)"
    by (cases ob) fastforce
qed


fun depth :: "json_value \<Rightarrow> nat" where
  "depth (JSONObject ob) =
     (if members ob = [] then 0 else Suc (fold max (map (\<lambda>(k, v). depth v) (members ob)) 0))"
| "depth (JSONArray a) =
     (if items a = [] then 0 else Suc (fold max (map depth (items a)) 0))"
| "depth v = 0"




section \<open>The serializer writes the text of the value\<close>


lemma int_wrap_wrap: "int_wrap (int_wrap a) = int_wrap a"
  using int_wrap_add [of a 0] by simp













section \<open>What number parsing rejects and what it accepts\<close>

lemma is_decimal_loop_False:
  "i < n \<Longrightarrow> strchr_found ''xX'' (char_at s i) \<Longrightarrow> \<not> is_decimal_loop s n"
  by (induction n) (auto simp: less_Suc_eq)

lemma is_decimal_loop_True:
  "(\<And>i. i < n \<Longrightarrow> \<not> strchr_found ''xX'' (char_at s i)) \<Longrightarrow> is_decimal_loop s n"
  by (induction n) auto

text \<open>
  The three shapes of a consumed text that the claim lists, in the claim's words: a
  leading zero not followed by a point, a negative zero not followed by a point, and a
  hex marker.
\<close>

definition rejected_literal :: "string \<Rightarrow> bool" where
  "rejected_literal t =
     ((1 < length t \<and> t ! 0 = CHR ''0'' \<and> t ! 1 \<noteq> CHR ''.'')
      \<or> (2 < length t \<and> take 2 t = ''-0'' \<and> t ! 2 \<noteq> CHR ''.'')
      \<or> CHR ''x'' \<in> set t \<or> CHR ''X'' \<in> set t)"

lemma is_decimal_iff:
  assumes t: "t = take n string" and n: "n \<le> length string" and nul: "NUL \<notin> set t"
  shows "is_decimal string n \<longleftrightarrow> \<not> rejected_literal t"
proof -
  have len: "length t = n" using t n by simp
  have nth: "\<And>i. i < n \<Longrightarrow> char_at string i = t ! i"
    using t n by (auto simp: char_at_def)
  have loop: "is_decimal_loop string n \<longleftrightarrow> CHR ''x'' \<notin> set t \<and> CHR ''X'' \<notin> set t"
  proof
    assume l: "is_decimal_loop string n"
    show "CHR ''x'' \<notin> set t \<and> CHR ''X'' \<notin> set t"
    proof (rule ccontr)
      assume "\<not> (CHR ''x'' \<notin> set t \<and> CHR ''X'' \<notin> set t)"
      then obtain c where c: "c = CHR ''x'' \<or> c = CHR ''X''" "c \<in> set t" by blast
      then obtain i where i: "i < length t" "t ! i = c" by (auto simp: in_set_conv_nth)
      with c(1) nth [of i] len have "i < n" "strchr_found ''xX'' (char_at string i)"
        by (auto simp: strchr_found_def cstr_def NUL_def)
      then have "\<not> is_decimal_loop string n" by (rule is_decimal_loop_False)
      with l show False by simp
    qed
  next
    assume a: "CHR ''x'' \<notin> set t \<and> CHR ''X'' \<notin> set t"
    show "is_decimal_loop string n"
    proof (rule is_decimal_loop_True)
      fix i assume i: "i < n"
      then have "t ! i \<in> set t" using len by simp
      with a nul have "t ! i \<noteq> CHR ''x''" "t ! i \<noteq> CHR ''X''" "t ! i \<noteq> NUL" by metis+
      then show "\<not> strchr_found ''xX'' (char_at string i)"
        using nth [OF i] by (simp add: strchr_found_def cstr_def NUL_def)
    qed
  qed
  have m0: "2 < n \<Longrightarrow> strncmp_eq string ''-0'' 2 \<longleftrightarrow> take 2 t = ''-0''"
  proof -
    assume n2: "2 < n"
    with n obtain a b s' where sr: "string = a # b # s'"
      by (cases string; cases "tl string") auto
    from n2 obtain m where m: "n = Suc (Suc m)" by (cases n; cases "n - 1") auto
    from t sr m have tr: "t = a # b # take m s'" by simp
    with nul have "a \<noteq> NUL" "b \<noteq> NUL" by auto
    then show ?thesis using tr sr
      by (auto simp: strncmp_eq_def cstr_def NUL_def)
  qed
  have A: "(1 < n \<and> char_at string 0 = CHR ''0'' \<and> char_at string 1 \<noteq> CHR ''.'')
           \<longleftrightarrow> (1 < length t \<and> t ! 0 = CHR ''0'' \<and> t ! 1 \<noteq> CHR ''.'')"
  proof (cases "1 < n")
    case True
    then have "char_at string 0 = t ! 0" "char_at string 1 = t ! 1" using nth by simp_all
    with True len show ?thesis by simp
  next
    case False
    with len show ?thesis by simp
  qed
  have B: "(2 < n \<and> strncmp_eq string ''-0'' 2 \<and> char_at string 2 \<noteq> CHR ''.'')
           \<longleftrightarrow> (2 < length t \<and> take 2 t = ''-0'' \<and> t ! 2 \<noteq> CHR ''.'')"
  proof (cases "2 < n")
    case True
    then have "char_at string 2 = t ! 2" using nth by simp
    with True len m0 show ?thesis by simp
  next
    case False
    with len show ?thesis by simp
  qed
  have "is_decimal string n \<longleftrightarrow>
          \<not> (1 < n \<and> char_at string 0 = CHR ''0'' \<and> char_at string 1 \<noteq> CHR ''.'')
          \<and> \<not> (2 < n \<and> strncmp_eq string ''-0'' 2 \<and> char_at string 2 \<noteq> CHR ''.'')
          \<and> is_decimal_loop string n"
    unfolding is_decimal_def by (simp only: if_split) blast
  then show ?thesis unfolding A B loop rejected_literal_def by blast
qed

lemma rejected_literal_fails:
  assumes t: "t = take (sd_end (strtod L string)) string"
    and bad: "(1 < length t \<and> t ! 0 = CHR ''0'' \<and> t ! 1 \<noteq> CHR ''.'')
            \<or> (2 < length t \<and> take 2 t = ''-0'' \<and> t ! 2 \<noteq> CHR ''.'')
            \<or> CHR ''x'' \<in> set t \<or> CHR ''X'' \<in> set t"
  shows "parse_number_value L string = None"
proof -
  let ?n = "sd_end (strtod L string)"
  have nth: "\<And>i. i < length t \<Longrightarrow> i < ?n \<and> char_at string i = t ! i"
    using t by (auto simp: char_at_def)
  have "\<not> is_decimal string ?n"
  proof -
    from bad consider
        (zero) "1 < length t" "t ! 0 = CHR ''0''" "t ! 1 \<noteq> CHR ''.''"
      | (mzero) "2 < length t" "take 2 t = ''-0''" "t ! 2 \<noteq> CHR ''.''"
      | (hex) c where "c = CHR ''x'' \<or> c = CHR ''X''" "c \<in> set t"
      by blast
    then show ?thesis
    proof cases
      case zero
      moreover from zero have "0 < length t" by (cases t) auto
      ultimately have "1 < ?n" "char_at string 0 = CHR ''0''" "char_at string 1 \<noteq> CHR ''.''"
        using nth [of 0] nth [of 1] by auto
      then show ?thesis by (simp add: is_decimal_def)
    next
      case mzero
      then have n: "2 < ?n" and c2: "char_at string 2 \<noteq> CHR ''.''"
        using nth [of 2] by auto
      from mzero(1,2) t have "take 2 string = ''-0''" by (auto simp: take_take min_def split: if_splits)
      then obtain r where "string = CHR ''-'' # CHR ''0'' # r"
        by (cases string; cases "tl string") auto
      then have "strncmp_eq string ''-0'' 2"
        by (simp add: strncmp_eq_def cstr_def NUL_def)
      with n c2 show ?thesis by (simp add: is_decimal_def)
    next
      case hex
      then obtain i where i: "i < length t" "t ! i = c" by (auto simp: in_set_conv_nth)
      with hex(1) nth [of i] have "i < ?n" "strchr_found ''xX'' (char_at string i)"
        by (auto simp: strchr_found_def cstr_def NUL_def)
      then have "\<not> is_decimal_loop string ?n" by (rule is_decimal_loop_False)
      then show ?thesis by (simp add: is_decimal_def)
    qed
  qed
  then show ?thesis by (simp add: parse_number_value_def Let_def)
qed

text \<open>
  Claim C7, amended. Number parsing does not accept only well-formed JSON literals: it
  accepts what \<^verbatim>\<open>strtod\<close> consumes, filtered by \<open>is_decimal\<close>. With \<open>t\<close> the text that \<^verbatim>\<open>strtod\<close>
  consumed: whatever \<^verbatim>\<open>strtod\<close> returns, \<open>parse_number_value\<close> fails when \<open>t\<close> has a leading
  zero not followed by a point, or starts with \<^verbatim>\<open>-0\<close> not followed by a point, or
  contains \<^verbatim>\<open>x\<close> or \<^verbatim>\<open>X\<close>. In every other case (\<open>t\<close> being a part of the C string) it fails
  only when \<^verbatim>\<open>strtod\<close> sets \<^verbatim>\<open>errno\<close> or returns a value that is not finite, and otherwise
  returns the number and moves the cursor past \<open>t\<close>. So texts that \<^verbatim>\<open>strtod\<close> reads and
  JSON does not allow, such as \<^verbatim>\<open>1.\<close> and \<^verbatim>\<open>-.5\<close>, are accepted.
\<close>

theorem parse_number_value_filter:
  assumes t: "t = take (sd_end (strtod L string)) string"
  shows "(rejected_literal t \<longrightarrow> parse_number_value L string = None)
       \<and> (\<not> rejected_literal t \<and> sd_end (strtod L string) \<le> length string \<and> NUL \<notin> set t \<longrightarrow>
            parse_number_value L string =
              (if sd_errno (strtod L string) then None
               else case sd_value (strtod L string) of
                      NonFinite \<Rightarrow> None
                    | Finite x \<Rightarrow> Some (JSONNumber x, drop (sd_end (strtod L string)) string)))"
proof (intro conjI impI)
  assume "rejected_literal t"
  then show "parse_number_value L string = None"
    using rejected_literal_fails [OF t] by (simp add: rejected_literal_def)
next
  assume a: "\<not> rejected_literal t \<and> sd_end (strtod L string) \<le> length string \<and> NUL \<notin> set t"
  then have "is_decimal string (sd_end (strtod L string))"
    using is_decimal_iff [OF t] by simp
  then show "parse_number_value L string =
              (if sd_errno (strtod L string) then None
               else case sd_value (strtod L string) of
                      NonFinite \<Rightarrow> None
                    | Finite x \<Rightarrow> Some (JSONNumber x, drop (sd_end (strtod L string)) string))"
    by (simp add: parse_number_value_def Let_def json_value_init_number_def split: double.splits)
qed

theorem parse_number_value_filter_witness:
  "rejected_literal ''01'' \<and> parse_number_value libc_integers ''01'' = None
   \<and> \<not> rejected_literal ''12'' \<and> parse_number_value libc_integers ''12'' = Some (JSONNumber 12, [])"
proof -
  have s1: "strtod libc_integers ''01'' = \<lparr> sd_value = Finite 1, sd_end = 2, sd_errno = False \<rparr>"
    by code_simp
  have s2: "strtod libc_integers ''12'' = \<lparr> sd_value = Finite 12, sd_end = 2, sd_errno = False \<rparr>"
    by code_simp
  have r1: "rejected_literal ''01''" by (simp add: rejected_literal_def)
  have r2: "\<not> rejected_literal ''12''" by (simp add: rejected_literal_def)
  have "parse_number_value libc_integers ''01'' = None"
    using parse_number_value_filter [of "''01''" libc_integers "''01''"] r1 by (simp add: s1)
  moreover have "parse_number_value libc_integers ''12'' = Some (JSONNumber 12, [])"
    using parse_number_value_filter [of "''12''" libc_integers "''12''"] r2 by (simp add: s2 NUL_def)
  ultimately show ?thesis using r1 r2 by simp
qed

text \<open>
  The claim as stated fails: the texts \<^verbatim>\<open>1.\<close> and \<^verbatim>\<open>-.5\<close>, which are not JSON numbers, parse
  as the numbers 1 and -0.5, and a minus sign alone, of which \<^verbatim>\<open>strtod\<close> consumes nothing,
  parses as the number 0.
\<close>

theorem number_parsing_accepts_non_literals:
  "parse_number_value libc_decimals ''1.'' = Some (JSONNumber 1, [])
   \<and> json_parse_string libc_decimals ''1.'' = Some (JSONNumber 1)
   \<and> json_parse_string libc_decimals ''-.5'' = Some (JSONNumber (- (1 / 2)))
   \<and> json_parse_string libc_decimals ''-'' = Some (JSONNumber 0)"
  by code_simp

section \<open>UTF-16 escapes\<close>

























section \<open>Equality is structural\<close>

lemma get_value_Some_mem:
  "json_object_get_value ob name = Some v \<Longrightarrow> \<exists>n. (n, v) \<in> set (members ob) \<and> cstr n = cstr name"
proof -
  have "json_object_getn_value_loop ms name (strlen name) = Some v
          \<Longrightarrow> \<exists>n. (n, v) \<in> set ms \<and> cstr n = cstr name" for ms
    by (induction ms)
       (auto simp: getn_value_loop_Cons strcmp_eq_def split: if_splits
             simp del: json_object_getn_value_loop.simps(2))
  then show "json_object_get_value ob name = Some v \<Longrightarrow> ?thesis"
    by (simp add: json_object_get_value_def json_object_getn_value_def)
qed

text \<open>
  Structural equality in the words of the specification: two values are equal when they
  have the same type and, by type, the same truth value, the same string, numbers that
  the comparison \<^verbatim>\<open>fabs(a - b) < 0.000001\<close> accepts, elements that are equal position
  by position, or the same set of keys with equal values under each key.
\<close>

definition numbers_close :: "libc \<Rightarrow> real \<Rightarrow> real \<Rightarrow> bool" where
  "numbers_close L x y = (case fsub L x y of NonFinite \<Rightarrow> False | Finite d \<Rightarrow> \<bar>d\<bar> < EPSILON)"

function structurally_equal :: "libc \<Rightarrow> json_value \<Rightarrow> json_value \<Rightarrow> bool" where
  "structurally_equal L a b =
     (case (a, b) of
        (JSONNull, JSONNull) \<Rightarrow> True
      | (JSONBoolean x, JSONBoolean y) \<Rightarrow> x = y
      | (JSONString s, JSONString t) \<Rightarrow> cstr s = cstr t
      | (JSONNumber x, JSONNumber y) \<Rightarrow> numbers_close L x y
      | (JSONArray xs, JSONArray ys) \<Rightarrow> list_all2 (structurally_equal L) (items xs) (items ys)
      | (JSONObject p, JSONObject q) \<Rightarrow>
          cstr ` fst ` set (members p) = cstr ` fst ` set (members q)
          \<and> (\<forall>(k, v) \<in> set (members p). \<forall>(k', v') \<in> set (members q).
                cstr k = cstr k' \<longrightarrow> structurally_equal L v v')
      | _ \<Rightarrow> False)"
  by pat_completeness auto
termination structurally_equal
  by (relation "measure (\<lambda>(L, a, b). size a)") (auto simp: size_items_mem size_members_mem)

declare structurally_equal.simps [simp del]

fun distinct_keys :: "json_value \<Rightarrow> bool" where
  "distinct_keys (JSONObject ob) =
     (distinct (map (cstr \<circ> fst) (members ob)) \<and> (\<forall>(k, v) \<in> set (members ob). distinct_keys v))"
| "distinct_keys (JSONArray a) = (\<forall>v \<in> set (items a). distinct_keys v)"
| "distinct_keys v = True"

lemma distinct_keys_card:
  assumes "distinct (map (cstr \<circ> fst) (members p))"
  shows "card (cstr ` fst ` set (members p)) = json_object_get_count p"
proof -
  have "cstr ` fst ` set (members p) = set (map (cstr \<circ> fst) (members p))" by (simp add: image_image)
  then show ?thesis using distinct_card [OF assms] by (simp add: json_object_get_count_def)
qed

lemma key_image_mem:
  "x \<in> cstr ` fst ` set ms \<longleftrightarrow> (\<exists>k v. (k, v) \<in> set ms \<and> x = cstr k)"
  by force

lemma lookup_step:
  assumes dp: "distinct (map (cstr \<circ> fst) (members p))"
    and dq: "distinct (map (cstr \<circ> fst) (members q))"
    and kv: "(k, v) \<in> set (members p)"
  shows "(case json_object_get_value p k of
             None \<Rightarrow> json_object_get_value q k = None
           | Some a_value \<Rightarrow>
               (case json_object_get_value q k of
                  None \<Rightarrow> False
                | Some b_value \<Rightarrow> E a_value b_value))
         = (\<exists>k' v'. (k', v') \<in> set (members q) \<and> cstr k' = cstr k \<and> E v v')"
proof -
  have gp: "json_object_get_value p k = Some v"
    using get_value_distinct [OF dp kv] by simp
  show ?thesis
  proof (cases "json_object_get_value q k")
    case None
    have "\<not> (\<exists>k' v'. (k', v') \<in> set (members q) \<and> cstr k' = cstr k)"
    proof
      assume "\<exists>k' v'. (k', v') \<in> set (members q) \<and> cstr k' = cstr k"
      then obtain k' v' where m: "(k', v') \<in> set (members q)" "cstr k = cstr k'" by auto
      from get_value_distinct [OF dq m] None show False by simp
    qed
    then have "\<not> (\<exists>k' v'. (k', v') \<in> set (members q) \<and> cstr k' = cstr k \<and> E v v')" by blast
    then show ?thesis by (simp add: gp None)
  next
    case (Some w)
    from get_value_Some_mem [OF Some] obtain n where n: "(n, w) \<in> set (members q)" "cstr n = cstr k"
      by auto
    have u: "w = v'" if "(k', v') \<in> set (members q)" "cstr k' = cstr k" for k' v'
    proof -
      from that(2) have "cstr k = cstr k'" by simp
      from get_value_distinct [OF dq that(1) this] Some show ?thesis by simp
    qed
    show ?thesis
    proof (cases "E v w")
      case True
      with n have "\<exists>k' v'. (k', v') \<in> set (members q) \<and> cstr k' = cstr k \<and> E v v'" by blast
      with True show ?thesis by (simp add: gp Some)
    next
      case False
      have "\<not> (\<exists>k' v'. (k', v') \<in> set (members q) \<and> cstr k' = cstr k \<and> E v v')"
      proof
        assume "\<exists>k' v'. (k', v') \<in> set (members q) \<and> cstr k' = cstr k \<and> E v v'"
        then obtain k' v' where m: "(k', v') \<in> set (members q)" "cstr k' = cstr k" "E v v'" by auto
        from u [OF m(1,2)] m(3) False show False by simp
      qed
      with False show ?thesis by (simp add: gp Some)
    qed
  qed
qed

lemma object_compare_iff:
  assumes dp: "distinct (map (cstr \<circ> fst) (members p))"
    and dq: "distinct (map (cstr \<circ> fst) (members q))"
    and IH: "\<And>k v k' v'. (k, v) \<in> set (members p) \<Longrightarrow> (k', v') \<in> set (members q) \<Longrightarrow>
               E v v' = S v v'"
  shows "(json_object_get_count p = json_object_get_count q
          \<and> (\<forall>key \<in> set (map fst (members p)).
                case json_object_get_value p key of
                  None \<Rightarrow> json_object_get_value q key = None
                | Some a_value \<Rightarrow>
                    (case json_object_get_value q key of
                       None \<Rightarrow> False
                     | Some b_value \<Rightarrow> E a_value b_value)))
       \<longleftrightarrow> (cstr ` fst ` set (members p) = cstr ` fst ` set (members q)
            \<and> (\<forall>(k, v) \<in> set (members p). \<forall>(k', v') \<in> set (members q).
                  cstr k = cstr k' \<longrightarrow> S v v'))"
    (is "?cnt \<and> ?steps \<longleftrightarrow> ?keys \<and> ?vals")
proof -
  let ?Kp = "cstr ` fst ` set (members p)" and ?Kq = "cstr ` fst ` set (members q)"
  have cp: "card ?Kp = json_object_get_count p" by (rule distinct_keys_card [OF dp])
  have cq: "card ?Kq = json_object_get_count q" by (rule distinct_keys_card [OF dq])
  have steps_iff: "?steps \<longleftrightarrow>
      (\<forall>k v. (k, v) \<in> set (members p) \<longrightarrow>
         (\<exists>k' v'. (k', v') \<in> set (members q) \<and> cstr k' = cstr k \<and> E v v'))"
    (is "_ \<longleftrightarrow> ?match")
  proof
    assume s: ?steps
    show ?match
    proof (intro allI impI)
      fix k v assume kv: "(k, v) \<in> set (members p)"
      then have "k \<in> set (map fst (members p))" by force
      from bspec [OF s this] show "\<exists>k' v'. (k', v') \<in> set (members q) \<and> cstr k' = cstr k \<and> E v v'"
        unfolding lookup_step [OF dp dq kv, of E] .
    qed
  next
    assume m: ?match
    show ?steps
    proof
      fix key assume "key \<in> set (map fst (members p))"
      then obtain v where kv: "(key, v) \<in> set (members p)" by auto
      from m kv have "\<exists>k' v'. (k', v') \<in> set (members q) \<and> cstr k' = cstr key \<and> E v v'" by blast
      then show "case json_object_get_value p key of
                  None \<Rightarrow> json_object_get_value q key = None
                | Some a_value \<Rightarrow>
                    (case json_object_get_value q key of
                       None \<Rightarrow> False
                     | Some b_value \<Rightarrow> E a_value b_value)"
        unfolding lookup_step [OF dp dq kv, of E] .
    qed
  qed
  have vals_iff: "?vals \<longleftrightarrow>
      (\<forall>k v k' v'. (k, v) \<in> set (members p) \<longrightarrow> (k', v') \<in> set (members q) \<longrightarrow>
          cstr k = cstr k' \<longrightarrow> S v v')"
    by auto
  have unique: "v1 = v2"
    if "(k1, v1) \<in> set (members q)" "(k2, v2) \<in> set (members q)" "cstr k1 = cstr k2" for k1 v1 k2 v2
  proof -
    have "json_object_get_value q k1 = Some v1" using get_value_distinct [OF dq that(1)] by simp
    moreover have "json_object_get_value q k1 = Some v2" using get_value_distinct [OF dq that(2)] that(3) by simp
    ultimately show ?thesis by simp
  qed
  show ?thesis
  proof
    assume c: "?cnt \<and> ?steps"
    then have m: ?match using steps_iff by blast
    have sub: "?Kp \<subseteq> ?Kq"
    proof
      fix x assume "x \<in> ?Kp"
      then obtain k v where kv: "(k, v) \<in> set (members p)" "x = cstr k"
        unfolding key_image_mem by blast
      with m obtain k' v' where "(k', v') \<in> set (members q)" "cstr k' = cstr k" by blast
      then have "\<exists>k' v'. (k', v') \<in> set (members q) \<and> x = cstr k'" using kv(2) by auto
      then show "x \<in> ?Kq" unfolding key_image_mem .
    qed
    have "card ?Kp = card ?Kq" using c cp cq by simp
    moreover have "finite ?Kq" by simp
    ultimately have keys: "?Kp = ?Kq" using sub by (simp add: card_subset_eq)
    have "S v v'"
      if mm: "(k, v) \<in> set (members p)" "(k', v') \<in> set (members q)" "cstr k = cstr k'" for k v k' v'
    proof -
      from m mm(1) obtain k2 v2 where
        k2: "(k2, v2) \<in> set (members q)" "cstr k2 = cstr k" "E v v2" by blast
      from unique [OF k2(1) mm(2)] k2(2) mm(3) have "v2 = v'" by simp
      with k2(3) show ?thesis using IH [OF mm(1,2)] by simp
    qed
    then have ?vals unfolding vals_iff by blast
    with keys show "?keys \<and> ?vals" by simp
  next
    assume s: "?keys \<and> ?vals"
    then have "card ?Kp = card ?Kq" by simp
    then have cnt: ?cnt using cp cq by simp
    have ?match
    proof (intro allI impI)
      fix k v assume kv: "(k, v) \<in> set (members p)"
      then have "\<exists>k0 v0. (k0, v0) \<in> set (members p) \<and> cstr k = cstr k0" by blast
      then have "cstr k \<in> ?Kp" unfolding key_image_mem .
      with s have "cstr k \<in> ?Kq" by simp
      then obtain k' v' where kv': "(k', v') \<in> set (members q)" "cstr k = cstr k'"
        unfolding key_image_mem by blast
      from s have "S v v'" unfolding vals_iff using kv kv' by blast
      then have "E v v'" using IH [OF kv kv'(1)] by simp
      with kv' show "\<exists>k' v'. (k', v') \<in> set (members q) \<and> cstr k' = cstr k \<and> E v v'" by auto
    qed
    then have ?steps using steps_iff by blast
    with cnt show "?cnt \<and> ?steps" by simp
  qed
qed

lemma if_not_eq_False: "(if c \<noteq> d then False else B) = (c = d \<and> B)"
  by simp

lemma equals_iff_structural:
  "distinct_keys a \<Longrightarrow> distinct_keys b \<Longrightarrow> json_value_equals L a b = structurally_equal L a b"
proof (induction a arbitrary: b rule: measure_induct_rule [where f = size])
  case (less a)
  show ?case
  proof (cases a)
    case JSONNull
    then show ?thesis
      by (cases b) (simp_all add: json_value_equals.simps structurally_equal.simps)
  next
    case (JSONString s)
    then show ?thesis
      by (cases b) (simp_all add: json_value_equals.simps structurally_equal.simps strcmp_eq_def)
  next
    case (JSONNumber x)
    then show ?thesis
      by (cases b) (simp_all add: json_value_equals.simps structurally_equal.simps numbers_close_def)
  next
    case (JSONBoolean x)
    then show ?thesis
      by (cases b) (simp_all add: json_value_equals.simps structurally_equal.simps)
  next
    case (JSONArray xs)
    show ?thesis
    proof (cases b)
      case (JSONArray ys)
      have el: "json_value_equals L (items xs ! i) (items ys ! i)
                  = structurally_equal L (items xs ! i) (items ys ! i)"
        if "i < length (items xs)" "length (items xs) = length (items ys)" for i
      proof -
        from that have mx: "items xs ! i \<in> set (items xs)" and my: "items ys ! i \<in> set (items ys)"
          by simp_all
        from mx have "size (items xs ! i) < size a"
          using size_items_mem [of "items xs ! i" xs] \<open>a = JSONArray xs\<close> by simp
        moreover from mx less.prems(1) \<open>a = JSONArray xs\<close> have "distinct_keys (items xs ! i)" by simp
        moreover from my less.prems(2) JSONArray have "distinct_keys (items ys ! i)" by simp
        ultimately show ?thesis by (rule less.IH)
      qed
      have "json_value_equals L (JSONArray xs) (JSONArray ys)
              \<longleftrightarrow> (length (items xs) = length (items ys)
                   \<and> (\<forall>i < length (items xs). json_value_equals L (items xs ! i) (items ys ! i)))"
        by (auto simp: json_value_equals.simps [of L "JSONArray xs"] json_array_get_count_def list_all_iff)
      also have "\<dots> \<longleftrightarrow> (length (items xs) = length (items ys)
                   \<and> (\<forall>i < length (items xs). structurally_equal L (items xs ! i) (items ys ! i)))"
        using el by auto
      also have "\<dots> \<longleftrightarrow> structurally_equal L (JSONArray xs) (JSONArray ys)"
        by (simp add: structurally_equal.simps [of L "JSONArray xs"] list_all2_conv_all_nth)
      finally show ?thesis using \<open>a = JSONArray xs\<close> JSONArray by simp
    qed (simp_all add: \<open>a = JSONArray xs\<close> json_value_equals.simps structurally_equal.simps)
  next
    case (JSONObject p)
    show ?thesis
    proof (cases b)
      case (JSONObject q)
      from less.prems(1) \<open>a = JSONObject p\<close> have dp: "distinct (map (cstr \<circ> fst) (members p))" by simp
      from less.prems(2) JSONObject have dq: "distinct (map (cstr \<circ> fst) (members q))" by simp
      have IH: "json_value_equals L v v' = structurally_equal L v v'"
        if "(k, v) \<in> set (members p)" "(k', v') \<in> set (members q)" for k v k' v'
      proof -
        from that(1) have "size v < size a"
          using size_members_mem [of k v p] \<open>a = JSONObject p\<close> by simp
        moreover from that(1) less.prems(1) \<open>a = JSONObject p\<close> have "distinct_keys v" by auto
        moreover from that(2) less.prems(2) JSONObject have "distinct_keys v'" by auto
        ultimately show ?thesis by (rule less.IH)
      qed
      note eq = object_compare_iff [OF dp dq, of "json_value_equals L" "structurally_equal L", OF IH]
      have code: "json_value_equals L (JSONObject p) (JSONObject q)
          = (if json_object_get_count p \<noteq> json_object_get_count q then False
             else list_all
                    (\<lambda>key. case json_object_get_value p key of
                             None \<Rightarrow> json_object_get_value q key = None
                           | Some a_value \<Rightarrow>
                               (case json_object_get_value q key of
                                  None \<Rightarrow> False
                                | Some b_value \<Rightarrow> json_value_equals L a_value b_value))
                    (map fst (members p)))"
        by (subst json_value_equals.simps) (simp only: json_value.case)
      have spec: "structurally_equal L (JSONObject p) (JSONObject q)
          = (cstr ` fst ` set (members p) = cstr ` fst ` set (members q)
             \<and> (\<forall>(k, v) \<in> set (members p). \<forall>(k', v') \<in> set (members q).
                   cstr k = cstr k' \<longrightarrow> structurally_equal L v v'))"
        by (subst structurally_equal.simps) (simp only: prod.case json_value.case)
      have "json_value_equals L (JSONObject p) (JSONObject q) = structurally_equal L (JSONObject p) (JSONObject q)"
        unfolding code spec list_all_iff if_not_eq_False by (rule eq)
      then show ?thesis using \<open>a = JSONObject p\<close> JSONObject by simp
    qed (simp_all add: \<open>a = JSONObject p\<close> json_value_equals.simps structurally_equal.simps)
  qed
qed

lemma json_value_equals_refl:
  assumes z: "\<And>x. fsub L x x = Finite 0"
  shows "json_value_equals L v v"
proof (induction v)
  case (JSONObject x)
  have "list_all
             (\<lambda>key. case json_object_get_value x key of
                      None \<Rightarrow> json_object_get_value x key = None
                    | Some a_value \<Rightarrow>
                        (case json_object_get_value x key of
                           None \<Rightarrow> False
                         | Some b_value \<Rightarrow> json_value_equals L a_value b_value))
             (map fst (members x))"
    unfolding list_all_iff
  proof
    fix key assume "key \<in> set (map fst (members x))"
    show "case json_object_get_value x key of
                      None \<Rightarrow> json_object_get_value x key = None
                    | Some a_value \<Rightarrow>
                        (case json_object_get_value x key of
                           None \<Rightarrow> False
                         | Some b_value \<Rightarrow> json_value_equals L a_value b_value)"
    proof (cases "json_object_get_value x key")
      case None
      then show ?thesis by simp
    next
      case (Some a)
      then obtain n where "(n, a) \<in> set (members x)"
        by (auto simp: json_object_get_value_def json_object_getn_value_def dest: getn_value_loop_Some_mem)
      then have "a \<in> set_json_object_t x"
        by (cases x) (force simp: snds.simps)
      with JSONObject Some show ?thesis by simp
    qed
  qed
  then show ?case by (simp add: json_value_equals.simps [of L "JSONObject x"])
next
  case (JSONArray x)
  have "list_all (\<lambda>i. json_value_equals L (items x ! i) (items x ! i)) [0 ..< json_array_get_count x]"
    unfolding list_all_iff
  proof
    fix i assume "i \<in> set [0 ..< json_array_get_count x]"
    then have "items x ! i \<in> set_json_array_t x"
      by (cases x) (simp add: json_array_get_count_def)
    with JSONArray show "json_value_equals L (items x ! i) (items x ! i)" by simp
  qed
  then show ?case by (simp add: json_value_equals.simps [of L "JSONArray x"])
qed (simp_all add: json_value_equals.simps strcmp_eq_def z EPSILON_def)


lemma json_value_equals_objects:
  assumes da: "distinct (map (cstr \<circ> fst) (members a))"
    and db: "distinct (map (cstr \<circ> fst) (members b))"
    and len: "json_object_get_count a = json_object_get_count b"
    and corr: "\<forall>(k, x) \<in> set (members a). \<exists>(k', y) \<in> set (members b).
                 cstr k' = cstr k \<and> json_value_equals L x y"
  shows "json_value_equals L (JSONObject a) (JSONObject b)"
proof -
  have "list_all
             (\<lambda>key. case json_object_get_value a key of
                      None \<Rightarrow> json_object_get_value b key = None
                    | Some a_value \<Rightarrow>
                        (case json_object_get_value b key of
                           None \<Rightarrow> False
                         | Some b_value \<Rightarrow> json_value_equals L a_value b_value))
             (map fst (members a))"
    unfolding list_all_iff
  proof
    fix key assume "key \<in> set (map fst (members a))"
    then obtain x where x: "(key, x) \<in> set (members a)" by auto
    with corr obtain k' y where y: "(k', y) \<in> set (members b)" "cstr k' = cstr key" "json_value_equals L x y"
      by fastforce
    have "json_object_get_value a key = Some x"
      using get_value_distinct [OF da x] by simp
    moreover have "json_object_get_value b key = Some y"
      using get_value_distinct [OF db y(1)] y(2) by simp
    ultimately show "case json_object_get_value a key of
                      None \<Rightarrow> json_object_get_value b key = None
                    | Some a_value \<Rightarrow>
                        (case json_object_get_value b key of
                           None \<Rightarrow> False
                         | Some b_value \<Rightarrow> json_value_equals L a_value b_value)"
      using y(3) by simp
  qed
  with len show ?thesis by (simp add: json_value_equals.simps [of L "JSONObject a"])
qed

text \<open>
  Claim C9, amended. On values whose objects have pairwise different keys,
  \<open>json_value_equals\<close> is structural equality: it holds exactly when the two values have
  the same type and the same truth value, the same string, equal elements position by
  position, or the same keys with equal values under each key, whatever the order of
  the members. Two numbers are equal exactly when the absolute value of their difference,
  as the subtraction of doubles yields it, is below the double constant \<^verbatim>\<open>0.000001\<close>, which
  is \<open>4722366482869645 / 2\<^sup>7\<^sup>2\<close>, not \<open>10\<^sup>-\<^sup>6\<close>. Two objects whose keys are distinct, with as
  many members each, compare equal when every member of the first has a member of the
  second with the same key and an equal value; in particular, where a double minus
  itself is zero, when the members of one are a permutation of the members of the other.
\<close>

theorem json_value_equals_structural:
  "(\<forall>a b. distinct_keys a \<and> distinct_keys b
          \<longrightarrow> json_value_equals L a b = structurally_equal L a b)
   \<and> (\<forall>x y. json_value_equals L (JSONNumber x) (JSONNumber y)
          \<longleftrightarrow> (case fsub L x y of NonFinite \<Rightarrow> False
               | Finite d \<Rightarrow> \<bar>d\<bar> < 4722366482869645 / 2 ^ 72))
   \<and> (\<forall>a b. distinct (map (cstr \<circ> fst) (members a)) \<and> distinct (map (cstr \<circ> fst) (members b))
          \<and> json_object_get_count a = json_object_get_count b
          \<and> (\<forall>(k, x) \<in> set (members a). \<exists>(k', y) \<in> set (members b).
                 cstr k' = cstr k \<and> json_value_equals L x y)
          \<longrightarrow> json_value_equals L (JSONObject a) (JSONObject b))
   \<and> (\<forall>a b. (\<forall>x. fsub L x x = Finite 0)
          \<and> distinct (map (cstr \<circ> fst) (members a)) \<and> mset (members b) = mset (members a)
          \<longrightarrow> json_value_equals L (JSONObject a) (JSONObject b))"
proof (intro conjI allI impI)
  fix a b
  assume "distinct_keys a \<and> distinct_keys b"
  then show "json_value_equals L a b = structurally_equal L a b"
    using equals_iff_structural [of a b L] by simp
next
  fix x y :: real
  show "json_value_equals L (JSONNumber x) (JSONNumber y)
          \<longleftrightarrow> (case fsub L x y of NonFinite \<Rightarrow> False
               | Finite d \<Rightarrow> \<bar>d\<bar> < 4722366482869645 / 2 ^ 72)"
    by (cases "fsub L x y") (simp_all add: json_value_equals.simps EPSILON_def)
next
  fix a b :: "json_value json_object_t"
  assume "distinct (map (cstr \<circ> fst) (members a)) \<and> distinct (map (cstr \<circ> fst) (members b))
          \<and> json_object_get_count a = json_object_get_count b
          \<and> (\<forall>(k, x) \<in> set (members a). \<exists>(k', y) \<in> set (members b).
                 cstr k' = cstr k \<and> json_value_equals L x y)"
  then show "json_value_equals L (JSONObject a) (JSONObject b)"
    using json_value_equals_objects [of a b L] by blast
next
  fix a b :: "json_value json_object_t"
  assume h: "(\<forall>x. fsub L x x = Finite 0)
          \<and> distinct (map (cstr \<circ> fst) (members a)) \<and> mset (members b) = mset (members a)"
  then have m: "mset (map (cstr \<circ> fst) (members b)) = mset (map (cstr \<circ> fst) (members a))"
    by (metis mset_map)
  with h have db: "distinct (map (cstr \<circ> fst) (members b))"
    by (metis mset_eq_imp_distinct_iff)
  from h have len: "json_object_get_count a = json_object_get_count b"
    by (metis json_object_get_count_def mset_eq_length)
  from h have set: "set (members b) = set (members a)" by (metis mset_eq_setD)
  from h have refl: "json_value_equals L v v" for v
    by (intro json_value_equals_refl) simp
  have "\<forall>(k, x) \<in> set (members a). \<exists>(k', y) \<in> set (members b).
                 cstr k' = cstr k \<and> json_value_equals L x y"
    using set refl by fastforce
  with h db len show "json_value_equals L (JSONObject a) (JSONObject b)"
    using json_value_equals_objects [of a b L] by blast
qed

theorem json_value_equals_structural_witness:
  "distinct_keys (JSONBoolean True) \<and> distinct_keys (JSONBoolean False)
   \<and> \<not> json_value_equals libc_integers (JSONBoolean True) (JSONBoolean False)
   \<and> distinct (map (cstr \<circ> fst) [(''a'', JSONNumber 1), (''b'', JSONString ''x'')])
   \<and> mset [(''b'', JSONString ''x''), (''a'', JSONNumber 1)] = mset [(''a'', JSONNumber 1), (''b'', JSONString ''x'')]
   \<and> json_value_equals libc_integers
        (JSONObject (JSON_Object [(''a'', JSONNumber 1), (''b'', JSONString ''x'')] 2))
        (JSONObject (JSON_Object [(''b'', JSONString ''x''), (''a'', JSONNumber 1)] 16))"
proof -
  note T = json_value_equals_structural [of libc_integers]
  have d: "distinct (map (cstr \<circ> fst) [(''a'', JSONNumber 1), (''b'', JSONString ''x'')])"
    by (simp add: cstr_def NUL_def)
  have m: "mset [(''b'', JSONString ''x''), (''a'', JSONNumber 1)] = mset [(''a'', JSONNumber 1), (''b'', JSONString ''x'')]"
    by (simp add: add.commute)
  have z: "\<forall>x. fsub libc_integers x x = Finite 0"
    by (simp add: libc_integers_def fsub_exact_def)
  have "json_value_equals libc_integers (JSONBoolean True) (JSONBoolean False)
          = structurally_equal libc_integers (JSONBoolean True) (JSONBoolean False)"
    using T [THEN conjunct1, rule_format, of "JSONBoolean True" "JSONBoolean False"] by simp
  then have b: "\<not> json_value_equals libc_integers (JSONBoolean True) (JSONBoolean False)"
    by (simp add: structurally_equal.simps)
  have "json_value_equals libc_integers
        (JSONObject (JSON_Object [(''a'', JSONNumber 1), (''b'', JSONString ''x'')] 2))
        (JSONObject (JSON_Object [(''b'', JSONString ''x''), (''a'', JSONNumber 1)] 16))"
    using T [THEN conjunct2, THEN conjunct2, THEN conjunct2, rule_format,
             of "JSON_Object [(''a'', JSONNumber 1), (''b'', JSONString ''x'')] 2"
                "JSON_Object [(''b'', JSONString ''x''), (''a'', JSONNumber 1)] 16"]
      d m z by simp
  with b d m show ?thesis by simp
qed

text \<open>
  The claim as stated fails at the double \<^verbatim>\<open>0.000001\<close> and zero: their difference is below
  \<open>10\<^sup>-\<^sup>6\<close>, and they are not equal.
\<close>

theorem numbers_below_one_millionth_not_equal:
  "\<bar>4722366482869645 / 2 ^ 72 - 0\<bar> < (1 / 10 ^ 6 :: real)
   \<and> fsub libc_integers (4722366482869645 / 2 ^ 72) 0 = Finite (4722366482869645 / 2 ^ 72)
   \<and> \<not> json_value_equals libc_integers (JSONNumber (4722366482869645 / 2 ^ 72)) (JSONNumber 0)"
  by (simp add: json_value_equals.simps libc_integers_def fsub_exact_def EPSILON_def)

section \<open>Removal keeps or breaks the order\<close>

lemma remove_loop_first:
  assumes "i < length ms" "strcmp_eq (fst (ms ! i)) name" "\<forall>l < i. \<not> strcmp_eq (fst (ms ! l)) name"
  shows "json_object_remove_loop ms name j = Some (j + i)"
  using assms
proof (induction ms name j arbitrary: i rule: json_object_remove_loop.induct)
  case (1 name j)
  then show ?case by simp
next
  case (2 n v rest name j)
  show ?case
  proof (cases i)
    case 0
    with 2 show ?thesis by simp
  next
    case (Suc d)
    with "2.prems" have f: "\<not> strcmp_eq n name" by auto
    from Suc "2.prems" have "d < length rest" "strcmp_eq (fst (rest ! d)) name"
      "\<forall>l < d. \<not> strcmp_eq (fst (rest ! l)) name" by auto
    from "2.IH" [OF f this] f Suc show ?thesis by simp
  qed
qed

text \<open>
  Claim C6. Removing index \<open>ix\<close> from an array moves every later element one slot down and
  leaves the earlier ones in place, so the order of the remaining elements is kept: index 1
  removed from \<open>[10, 20, 30]\<close> leaves \<open>[10, 30]\<close>. Removing a key from an object puts the last
  pair into the slot of the first pair with that key and drops the last slot, so the order of
  the remaining pairs can change: key \<open>a\<close> removed from \<open>a, b, c, d\<close> leaves \<open>d, b, c\<close>.
\<close>

theorem removal_semantics:
  "(\<forall>(array :: 'v json_array_t) ix. ix < json_array_get_count array \<longrightarrow>
      fst (json_array_remove array ix) = JSONSuccess
      \<and> items (snd (json_array_remove array ix)) = take ix (items array) @ drop (Suc ix) (items array)
      \<and> json_array_get_count (snd (json_array_remove array ix)) = json_array_get_count array - 1
      \<and> (\<forall>j < ix. items (snd (json_array_remove array ix)) ! j = items array ! j)
      \<and> (\<forall>j. ix \<le> j \<and> j < json_array_get_count array - 1 \<longrightarrow>
             items (snd (json_array_remove array ix)) ! j = items array ! (j + 1)))
   \<and> (\<forall>(object :: 'v json_object_t) name i.
        i < json_object_get_count object \<and> strcmp_eq (fst (members object ! i)) name
        \<and> (\<forall>l < i. \<not> strcmp_eq (fst (members object ! l)) name) \<longrightarrow>
      fst (json_object_remove object name) = JSONSuccess
      \<and> json_object_get_count (snd (json_object_remove object name)) = json_object_get_count object - 1
      \<and> members (snd (json_object_remove object name))
          = butlast ((members object)[i := last (members object)])
      \<and> (\<forall>j < json_object_get_count object - 1. j \<noteq> i \<longrightarrow>
             members (snd (json_object_remove object name)) ! j = members object ! j)
      \<and> (i < json_object_get_count object - 1 \<longrightarrow>
             members (snd (json_object_remove object name)) ! i
               = members object ! (json_object_get_count object - 1)))
   \<and> json_array_remove (JSON_Array [JSONNumber 10, JSONNumber 20, JSONNumber 30] 16) 1
        = (JSONSuccess, JSON_Array [JSONNumber 10, JSONNumber 30] 16)
   \<and> json_object_remove
        (JSON_Object [(''a'', JSONNumber 1), (''b'', JSONNumber 2), (''c'', JSONNumber 3), (''d'', JSONNumber 4)] 16) ''a''
        = (JSONSuccess, JSON_Object [(''d'', JSONNumber 4), (''b'', JSONNumber 2), (''c'', JSONNumber 3)] 16)"
proof (intro conjI allI impI)
  fix array :: "'v json_array_t" and ix
  assume ix: "ix < json_array_get_count array"
  then have r: "json_array_remove array ix
      = (JSONSuccess, JSON_Array (take ix (items array) @ drop (Suc ix) (items array)) (array_capacity array))"
    by (simp add: json_array_remove_def)
  show "fst (json_array_remove array ix) = JSONSuccess" by (simp add: r)
  show "items (snd (json_array_remove array ix)) = take ix (items array) @ drop (Suc ix) (items array)"
    by (simp add: r)
  show "json_array_get_count (snd (json_array_remove array ix)) = json_array_get_count array - 1"
    using ix by (simp add: r json_array_get_count_def)
  show "items (snd (json_array_remove array ix)) ! j = items array ! j" if "j < ix" for j
    using that ix by (simp add: r json_array_get_count_def nth_append)
  show "items (snd (json_array_remove array ix)) ! j = items array ! (j + 1)"
    if "ix \<le> j \<and> j < json_array_get_count array - 1" for j
    using that ix by (auto simp add: r json_array_get_count_def nth_append min_def)
next
  fix object :: "'v json_object_t" and name i
  assume h: "i < json_object_get_count object \<and> strcmp_eq (fst (members object ! i)) name
        \<and> (\<forall>l < i. \<not> strcmp_eq (fst (members object ! l)) name)"
  let ?ms = "members object"
  let ?n = "length ?ms"
  from h have i: "i < ?n" by (simp add: json_object_get_count_def)
  from h i have loop: "json_object_remove_loop ?ms name 0 = Some i"
    using remove_loop_first [of i ?ms name 0] by simp
  from h i have "?ms ! i \<in> set ?ms" by simp
  moreover from h have "strcmp_eq (fst (?ms ! i)) name" by simp
  ultimately have "\<not> (\<forall>(n, v) \<in> set ?ms. \<not> strcmp_eq n name)"
    by (metis (mono_tags, lifting) case_prod_beta)
  then have found: "json_object_get_value object name \<noteq> None"
    by (simp only: get_value_None_iff not_False_eq_True)
  have ne: "?ms \<noteq> []" using i by auto
  have upd: "?ms ! (?n - Suc 0) = last ?ms"
    using ne by (simp add: last_conv_nth)
  have r: "json_object_remove object name
      = (JSONSuccess, JSON_Object (butlast (?ms[i := last ?ms])) (object_capacity object))"
    using found loop upd
    by (auto simp add: json_object_remove_def json_object_remove_internal_def Let_def
          json_object_get_count_def butlast_conv_take)
  show "fst (json_object_remove object name) = JSONSuccess" by (simp add: r)
  show "json_object_get_count (snd (json_object_remove object name)) = json_object_get_count object - 1"
    by (simp add: r json_object_get_count_def)
  show "members (snd (json_object_remove object name)) = butlast (?ms[i := last ?ms])"
    by (simp add: r)
  show "members (snd (json_object_remove object name)) ! j = ?ms ! j"
    if "j < json_object_get_count object - 1" "j \<noteq> i" for j
    using that by (simp add: r json_object_get_count_def nth_butlast)
  show "members (snd (json_object_remove object name)) ! i = ?ms ! (json_object_get_count object - 1)"
    if "i < json_object_get_count object - 1"
    using that ne by (simp add: r json_object_get_count_def nth_butlast last_conv_nth)
next
  show "json_array_remove (JSON_Array [JSONNumber 10, JSONNumber 20, JSONNumber 30] 16) 1
        = (JSONSuccess, JSON_Array [JSONNumber 10, JSONNumber 30] 16)"
    by (simp add: json_array_remove_def json_array_get_count_def)
  show "json_object_remove
        (JSON_Object [(''a'', JSONNumber 1), (''b'', JSONNumber 2), (''c'', JSONNumber 3), (''d'', JSONNumber 4)] 16) ''a''
        = (JSONSuccess, JSON_Object [(''d'', JSONNumber 4), (''b'', JSONNumber 2), (''c'', JSONNumber 3)] 16)"
    by (simp add: json_object_remove_def json_object_remove_internal_def json_object_get_value_def
          json_object_getn_value_def json_object_get_count_def strlen_def cstr_def NUL_def
          strncmp_eq_def strcmp_eq_def)
qed


theorem removal_semantics_witness:
  "1 < json_array_get_count (JSON_Array [JSONNumber 10, JSONNumber 20, JSONNumber 30] 16)
   \<and> items (snd (json_array_remove (JSON_Array [JSONNumber 10, JSONNumber 20, JSONNumber 30] 16) 1))
       = [JSONNumber 10, JSONNumber 30]
   \<and> 1 < json_object_get_count (JSON_Object [(''a'', JSONNull), (''b'', JSONNull), (''c'', JSONNull), (''d'', JSONNull)] 16)
   \<and> strcmp_eq (fst (members (JSON_Object [(''a'', JSONNull), (''b'', JSONNull), (''c'', JSONNull), (''d'', JSONNull)] 16) ! 1)) ''b''
   \<and> \<not> strcmp_eq (fst (members (JSON_Object [(''a'', JSONNull), (''b'', JSONNull), (''c'', JSONNull), (''d'', JSONNull)] 16) ! 0)) ''b''
   \<and> members (snd (json_object_remove
         (JSON_Object [(''a'', JSONNull), (''b'', JSONNull), (''c'', JSONNull), (''d'', JSONNull)] 16) ''b''))
       = [(''a'', JSONNull), (''d'', JSONNull), (''c'', JSONNull)]"
proof -
  let ?arr = "JSON_Array [JSONNumber 10, JSONNumber 20, JSONNumber 30] 16"
  let ?obj = "JSON_Object [(''a'', JSONNull), (''b'', JSONNull), (''c'', JSONNull), (''d'', JSONNull)] 16"
  have a: "1 < json_array_get_count ?arr" by (simp add: json_array_get_count_def)
  have o1: "1 < json_object_get_count ?obj" by (simp add: json_object_get_count_def)
  have o2: "strcmp_eq (fst (members ?obj ! 1)) ''b''" by (simp add: strcmp_eq_def)
  have o3: "\<forall>l < 1. \<not> strcmp_eq (fst (members ?obj ! l)) ''b''"
    by (simp add: strcmp_eq_def cstr_def NUL_def)
  from removal_semantics [where 'v = json_value] a
  have ra: "items (snd (json_array_remove ?arr 1)) = take 1 (items ?arr) @ drop (Suc 1) (items ?arr)"
    by blast
  from removal_semantics [where 'v = json_value] o1 o2 o3
  have ro: "members (snd (json_object_remove ?obj ''b'')) = butlast ((members ?obj)[1 := last (members ?obj)])"
    by blast
  have o4: "\<not> strcmp_eq (fst (members ?obj ! 0)) ''b''"
    by (simp add: strcmp_eq_def cstr_def NUL_def)
  from a o1 o2 o4 ra ro show ?thesis by simp
qed

section \<open>Duplicate keys\<close>

lemma cstr_idem [simp]: "cstr (cstr s) = cstr s"
  by (simp add: cstr_def takeWhile_idem)

lemma getn_value_loop_found:
  assumes "(n, v) \<in> set ms" "strlen n = name_len" "strncmp_eq n name name_len"
  shows "json_object_getn_value_loop ms name name_len \<noteq> None"
  using assms by (induction ms) auto

lemma get_quoted_string_cstr:
  assumes "get_quoted_string s = Some (k, r)"
  shows "cstr k = k \<and> peek s = dquote"
proof -
  from assms obtain q n where q: "skip_quotes s = Some q" and k: "process_string (drop 1 s) n = Some k"
    by (auto simp: get_quoted_string_def Let_def split: option.splits)
  from q have "peek s = dquote"
    by (cases "peek s = dquote") (simp_all add: skip_quotes_def)
  moreover from k obtain k0 where "k = cstr k0"
    by (auto simp: process_string_def)
  ultimately show ?thesis by simp
qed

lemma json_object_addn_duplicate:
  assumes "(k, v0) \<in> set (members object)" "cstr k = k" "name_len \<le> strlen name"
    "take name_len (cstr name) = k"
  shows "json_object_addn object name name_len value = (JSONFailure, object)"
proof -
  from assms have "strlen k = name_len" by (auto simp: strlen_def)
  moreover from assms have "strncmp_eq k name name_len" by (auto simp: strncmp_eq_def)
  ultimately have "json_object_getn_value object name name_len \<noteq> None"
    unfolding json_object_getn_value_def using assms(1) by (intro getn_value_loop_found [of k v0])
  then show ?thesis by (simp add: json_object_addn_def)
qed

lemma json_object_add_duplicate:
  assumes "(k, v0) \<in> set (members object)" "cstr k = k"
  shows "json_object_add object k value = (JSONFailure, object)"
  unfolding json_object_add_def
  using assms by (intro json_object_addn_duplicate [of k v0]) (auto simp: strlen_def)

lemma parse_object_loop_duplicate:
  assumes g: "get_quoted_string string = Some (new_key, string1)"
    and c: "peek (SKIP_WHITESPACES string1) = CHR '':''"
    and v: "parse_value L (SKIP_CHAR (SKIP_WHITESPACES string1)) nesting = Some (new_value, string3)"
    and d: "(new_key, v0) \<in> set (members (output_object :: json_value json_object_t))"
  shows "parse_object_loop L string nesting output_object = None"
proof -
  from get_quoted_string_cstr [OF g] have k: "cstr new_key = new_key" and p: "peek string \<noteq> NUL"
    by (auto simp: dquote_def NUL_def)
  have "json_object_add output_object new_key new_value = (JSONFailure, output_object)"
    using d k by (rule json_object_add_duplicate)
  with g c v p show ?thesis
    by (simp add: parse_object_loop.simps [of L string])
qed

text \<open>
  Claim C4. Adding a pair whose key is already a key of the object fails and returns the
  object as it was, through \<open>json_object_addn\<close> and through \<open>json_object_add\<close>. In the loop
  of the object parser a key that the object already has makes the loop, and with it the
  parse, fail: \<^verbatim>\<open>{"a":null,"a":true}\<close> does not parse, while \<^verbatim>\<open>{"a":null,"b":true}\<close> does.
\<close>

theorem duplicate_key_rejected:
  "(\<forall>(object :: 'v json_object_t) k v0 name name_len value.
       (k, v0) \<in> set (members object) \<and> cstr k = k \<and> name_len \<le> strlen name
       \<and> take name_len (cstr name) = k
       \<longrightarrow> json_object_addn object name name_len value = (JSONFailure, object))
   \<and> (\<forall>(object :: 'v json_object_t) k v0 value.
       (k, v0) \<in> set (members object) \<and> cstr k = k
       \<longrightarrow> json_object_add object k value = (JSONFailure, object))
   \<and> (\<forall>string nesting output_object new_key string1 new_value string3 v0.
        get_quoted_string string = Some (new_key, string1)
        \<and> peek (SKIP_WHITESPACES string1) = CHR '':''
        \<and> parse_value L (SKIP_CHAR (SKIP_WHITESPACES string1)) nesting = Some (new_value, string3)
        \<and> (new_key, v0) \<in> set (members output_object)
        \<longrightarrow> parse_object_loop L string nesting output_object = None)
   \<and> json_parse_string L (''{'' @ [dquote] @ ''a'' @ [dquote] @ '':null,'' @ [dquote] @ ''a'' @ [dquote] @ '':true}'') = None
   \<and> json_parse_string L (''{'' @ [dquote] @ ''a'' @ [dquote] @ '':null,'' @ [dquote] @ ''b'' @ [dquote] @ '':true}'')
       = Some (JSONObject (JSON_Object [(''a'', JSONNull), (''b'', JSONBoolean True)] 2))"
proof (intro conjI allI impI)
  show "json_parse_string L (''{'' @ [dquote] @ ''a'' @ [dquote] @ '':null,'' @ [dquote] @ ''a'' @ [dquote] @ '':true}'') = None"
    by code_simp
  show "json_parse_string L (''{'' @ [dquote] @ ''a'' @ [dquote] @ '':null,'' @ [dquote] @ ''b'' @ [dquote] @ '':true}'')
       = Some (JSONObject (JSON_Object [(''a'', JSONNull), (''b'', JSONBoolean True)] 2))"
    by code_simp
next
  fix object :: "'v json_object_t" and k v0 name name_len "value"
  assume "(k, v0) \<in> set (members object) \<and> cstr k = k \<and> name_len \<le> strlen name
       \<and> take name_len (cstr name) = k"
  then show "json_object_addn object name name_len value = (JSONFailure, object)"
    using json_object_addn_duplicate [of k v0 object name_len name "value"] by blast
next
  fix object :: "'v json_object_t" and k v0 "value"
  assume "(k, v0) \<in> set (members object) \<and> cstr k = k"
  then show "json_object_add object k value = (JSONFailure, object)"
    using json_object_add_duplicate [of k v0 object "value"] by blast
next
  fix string nesting and output_object :: "json_value json_object_t"
    and new_key string1 new_value string3 v0
  assume "get_quoted_string string = Some (new_key, string1)
        \<and> peek (SKIP_WHITESPACES string1) = CHR '':''
        \<and> parse_value L (SKIP_CHAR (SKIP_WHITESPACES string1)) nesting = Some (new_value, string3)
        \<and> (new_key, v0) \<in> set (members output_object)"
  then show "parse_object_loop L string nesting output_object = None"
    using parse_object_loop_duplicate [of string new_key string1 L nesting new_value string3 v0 output_object]
    by blast
qed

theorem duplicate_key_rejected_witness:
  "(''a'', JSONNull) \<in> set (members (JSON_Object [(''a'', JSONNull)] 16))
   \<and> cstr ''a'' = ''a''
   \<and> json_object_add (JSON_Object [(''a'', JSONNull)] 16) ''a'' (JSONBoolean True)
       = (JSONFailure, JSON_Object [(''a'', JSONNull)] 16)
   \<and> get_quoted_string ([dquote] @ ''a'' @ [dquote] @ '':true}'') = Some (''a'', '':true}'')
   \<and> parse_value libc_integers ''true}'' 1 = Some (JSONBoolean True, ''}'')
   \<and> parse_object_loop libc_integers ([dquote] @ ''a'' @ [dquote] @ '':true}'') 1
         (JSON_Object [(''a'', JSONNull)] 16) = None"
proof -
  have m: "(''a'', JSONNull) \<in> set (members (JSON_Object [(''a'', JSONNull)] 16))" by simp
  have c: "cstr ''a'' = ''a''" by (simp add: cstr_def NUL_def)
  have g: "get_quoted_string ([dquote] @ ''a'' @ [dquote] @ '':true}'') = Some (''a'', '':true}'')"
    by code_simp
  have p: "peek (SKIP_WHITESPACES '':true}'') = CHR '':''" by code_simp
  have s: "SKIP_CHAR (SKIP_WHITESPACES '':true}'') = ''true}''" by code_simp
  have v: "parse_value libc_integers ''true}'' 1 = Some (JSONBoolean True, ''}'')" by code_simp
  note T = duplicate_key_rejected [where 'v = json_value and L = libc_integers]
  have a: "json_object_add (JSON_Object [(''a'', JSONNull)] 16) ''a'' (JSONBoolean True)
       = (JSONFailure, JSON_Object [(''a'', JSONNull)] 16)"
    using T [THEN conjunct2, THEN conjunct1, rule_format,
        of "''a''" JSONNull "JSON_Object [(''a'', JSONNull)] 16" "JSONBoolean True"] m c
    by simp
  have "parse_object_loop libc_integers ([dquote] @ ''a'' @ [dquote] @ '':true}'') 1
         (JSON_Object [(''a'', JSONNull)] 16) = None"
    using T [THEN conjunct2, THEN conjunct2, THEN conjunct1, rule_format,
        of "[dquote] @ ''a'' @ [dquote] @ '':true}''" "''a''" "'':true}''" 1 "JSONBoolean True" "''}''"
           JSONNull "JSON_Object [(''a'', JSONNull)] 16"] g p v m
    unfolding s by simp
  with m c a g v show ?thesis by simp
qed

section \<open>The count and the bytes written\<close>























end
